theory Spec2Isabelle
  imports Complex_Main "HOL-Library.Multiset" "HOL-Library.AList"
begin

section \<open>Data model\<close>

text \<open>
  The development follows \<^verbatim>\<open>train_classifier.py\<close>. A bounding box is one row of the
  \<^verbatim>\<open>N x 4 x 2\<close> coordinate array: four corner points, each an (x, y) pair. Coordinates are
  floating-point numbers in the source; they are idealised as reals here, so rounding
  error of the floating-point unit is outside the model.
\<close>

type_synonym point = "real \<times> real"

datatype box = Box point point point point

text \<open>
  A Python value used as a label: a string, \<^verbatim>\<open>None\<close>, or some other non-string object
  (a number stands for those).
\<close>

datatype pyval = PStr string | PNone | PNum int

datatype error = IndexError | KeyError | AssertionError | TypeError | CvError

section \<open>Geometry helpers of \<^verbatim>\<open>image_proc\<close>\<close>

definition pt_sub :: "point \<Rightarrow> point \<Rightarrow> point" where
  "pt_sub p q = (fst p - fst q, snd p - snd q)"

definition corners :: "box \<Rightarrow> point list" where
  "corners b = (case b of Box p0 p1 p2 p3 \<Rightarrow> [p0, p1, p2, p3])"

definition min4 :: "real \<Rightarrow> real \<Rightarrow> real \<Rightarrow> real \<Rightarrow> real" where
  "min4 a b c d = min (min a b) (min c d)"

definition max4 :: "real \<Rightarrow> real \<Rightarrow> real \<Rightarrow> real \<Rightarrow> real" where
  "max4 a b c d = max (max a b) (max c d)"

text \<open>
  Modelled from the spec: \<^verbatim>\<open>image_proc.get_containing_rect\<close> is not among the sources.
  The specification gives it as the axis-aligned rectangle, as the four corner points
  (tl, tr, br, bl), whose extent is [min x, max x] x [min y, max y] of the quadrilateral.
\<close>

definition get_containing_rect :: "box \<Rightarrow> point \<times> point \<times> point \<times> point" where
  "get_containing_rect b = (case b of Box p0 p1 p2 p3 \<Rightarrow>
     (let x_lo = min4 (fst p0) (fst p1) (fst p2) (fst p3);
          x_hi = max4 (fst p0) (fst p1) (fst p2) (fst p3);
          y_lo = min4 (snd p0) (snd p1) (snd p2) (snd p3);
          y_hi = max4 (snd p0) (snd p1) (snd p2) (snd p3)
      in ((x_lo, y_lo), (x_hi, y_lo), (x_hi, y_hi), (x_lo, y_hi))))"

section \<open>\<^verbatim>\<open>filter_BBs\<close>\<close>

text \<open>
  The loop of \<^verbatim>\<open>filter_BBs\<close> walks the boxes with their index \<open>i\<close>, clears
  \<^verbatim>\<open>skip_mask[i]\<close> for a box that reaches the image bound or has a dimension of at most 1,
  and otherwise appends \<^verbatim>\<open>gts[i]\<close>, which raises \<^verbatim>\<open>IndexError\<close> when \<open>gts\<close> is too short.
  The result of the loop is the mask and the list \<^verbatim>\<open>correct_gts\<close>. The mask is allocated
  with \<^verbatim>\<open>np.bool\<close>, the alias of \<^verbatim>\<open>bool\<close> in the numpy releases the module was written for.
\<close>

fun filter_loop ::
  "int \<times> int \<Rightarrow> 'g list \<Rightarrow> nat \<Rightarrow> box list \<Rightarrow> error + (bool list \<times> 'g list)" where
  "filter_loop img_wh gts i [] = Inr ([], [])"
| "filter_loop img_wh gts i (BB # BBs) =
     (case get_containing_rect BB of (c_tl, c_tr, c_br, c_bl) \<Rightarrow>
      (case pt_sub c_br c_tl of (w, h) \<Rightarrow>
        if fst c_br \<ge> of_int (fst img_wh) \<or> snd c_br \<ge> of_int (snd img_wh) then
          (case filter_loop img_wh gts (i + 1) BBs of
             Inl e \<Rightarrow> Inl e
           | Inr (skip_mask, correct_gts) \<Rightarrow> Inr (False # skip_mask, correct_gts))
        else if w \<le> 1 \<or> h \<le> 1 then
          (case filter_loop img_wh gts (i + 1) BBs of
             Inl e \<Rightarrow> Inl e
           | Inr (skip_mask, correct_gts) \<Rightarrow> Inr (False # skip_mask, correct_gts))
        else if i < length gts then
          (case filter_loop img_wh gts (i + 1) BBs of
             Inl e \<Rightarrow> Inl e
           | Inr (skip_mask, correct_gts) \<Rightarrow> Inr (True # skip_mask, gts ! i # correct_gts))
        else Inl IndexError))"

text \<open>Boolean-mask indexing \<^verbatim>\<open>BBs[skip_mask]\<close> of numpy.\<close>

definition mask_select :: "'a list \<Rightarrow> bool list \<Rightarrow> 'a list" where
  "mask_select xs msk = map fst (filter snd (zip xs msk))"

definition filter_BBs ::
  "box list \<Rightarrow> 'g list \<Rightarrow> int \<times> int \<Rightarrow> error + (box list \<times> 'g list)" where
  "filter_BBs BBs gts img_wh =
     (case filter_loop img_wh gts 0 BBs of
        Inl e \<Rightarrow> Inl e
      | Inr (skip_mask, correct_gts) \<Rightarrow> Inr (mask_select BBs skip_mask, correct_gts))"

text \<open>
  The condition under which the loop keeps a box, read off its two guards: the containing
  rectangle's bottom-right corner lies strictly below the image width and height, and the
  rectangle is more than 1 wide and more than 1 high.
\<close>

definition kept :: "int \<times> int \<Rightarrow> box \<Rightarrow> bool" where
  "kept img_wh BB =
     (case get_containing_rect BB of (c_tl, c_tr, c_br, c_bl) \<Rightarrow>
        fst c_br < of_int (fst img_wh) \<and> snd c_br < of_int (snd img_wh) \<and>
        1 < fst c_br - fst c_tl \<and> 1 < snd c_br - snd c_tl)"

text \<open>
  The keeping condition in the words of the specification: the bottom-right corner does not
  exceed the image width and height, and width and height are both greater than 1.
\<close>

definition spec_kept :: "int \<times> int \<Rightarrow> box \<Rightarrow> bool" where
  "spec_kept img_wh BB =
     (case get_containing_rect BB of (c_tl, c_tr, c_br, c_bl) \<Rightarrow>
        fst c_br \<le> of_int (fst img_wh) \<and> snd c_br \<le> of_int (snd img_wh) \<and>
        1 < fst c_br - fst c_tl \<and> 1 < snd c_br - snd c_tl)"

section \<open>The random stream of numpy\<close>

text \<open>
  The process-wide generator of \<^verbatim>\<open>np.random\<close> is a state \<open>'s\<close> with a raw generator
  \<open>gen\<close> that returns the next raw integer and the next state; nothing is assumed about
  \<open>gen\<close>. The bounded draw used by \<^verbatim>\<open>shuffle\<close> returns an integer in [0, mx]; it is taken
  as one raw draw reduced modulo \<open>mx + 1\<close>, where numpy rejects and redraws. The draw of
  \<^verbatim>\<open>random_sample\<close> is a 53-bit integer divided by 2^53, a number in [0, 1).
\<close>

definition random_interval :: "('s \<Rightarrow> nat \<times> 's) \<Rightarrow> 's \<Rightarrow> nat \<Rightarrow> nat \<times> 's" where
  "random_interval gen st mx = (fst (gen st) mod (mx + 1), snd (gen st))"

definition random_sample :: "('s \<Rightarrow> nat \<times> 's) \<Rightarrow> 's \<Rightarrow> real \<times> 's" where
  "random_sample gen st =
     (real (fst (gen st) mod 9007199254740992) / 9007199254740992, snd (gen st))"

text \<open>
  \<^verbatim>\<open>np.random.uniform(low, high, size=n)\<close>: \<open>n\<close> successive draws, each
  \<open>low + (high - low) * random_sample()\<close>.
\<close>

fun uniform :: "('s \<Rightarrow> nat \<times> 's) \<Rightarrow> 's \<Rightarrow> real \<Rightarrow> real \<Rightarrow> nat \<Rightarrow> real list \<times> 's" where
  "uniform gen st low high 0 = ([], st)"
| "uniform gen st low high (Suc n) =
     (case random_sample gen st of (u, st1) \<Rightarrow>
      (case uniform gen st1 low high n of (rest, st2) \<Rightarrow>
         ((low + (high - low) * u) # rest, st2)))"

text \<open>
  \<^verbatim>\<open>np.random.shuffle(x)\<close>: for \<open>i\<close> from \<open>len(x) - 1\<close> down to 1, draw \<open>j\<close> in [0, i] and
  swap \<open>x[i]\<close> with \<open>x[j]\<close>. The draws depend on the state and on the length only.
\<close>

fun shuffle_loop :: "('s \<Rightarrow> nat \<times> 's) \<Rightarrow> nat \<Rightarrow> 's \<Rightarrow> 'a list \<Rightarrow> 'a list \<times> 's" where
  "shuffle_loop gen 0 st xs = (xs, st)"
| "shuffle_loop gen (Suc k) st xs =
     (case random_interval gen st (Suc k) of (j, st1) \<Rightarrow>
        shuffle_loop gen k st1 (xs[Suc k := xs ! j, j := xs ! Suc k]))"

definition shuffle :: "('s \<Rightarrow> nat \<times> 's) \<Rightarrow> 's \<Rightarrow> 'a list \<Rightarrow> 'a list \<times> 's" where
  "shuffle gen st xs = shuffle_loop gen (length xs - 1) st xs"

section \<open>\<^verbatim>\<open>shuffle_in_unison\<close>\<close>

text \<open>
  The state is saved, \<open>a\<close> is shuffled, the saved state is restored and \<open>b\<close> is shuffled.
  Both sequences are mutated in place in the source; the model returns them with the
  state the generator is left in.
\<close>

definition shuffle_in_unison ::
  "('s \<Rightarrow> nat \<times> 's) \<Rightarrow> 's \<Rightarrow> 'a list \<Rightarrow> 'b list \<Rightarrow> 'a list \<times> 'b list \<times> 's" where
  "shuffle_in_unison gen st a b =
     (let rng_state = st in
      case shuffle gen st a of (a1, st1) \<Rightarrow>
      case shuffle gen rng_state b of (b1, st2) \<Rightarrow> (a1, b1, st2))"

section \<open>\<^verbatim>\<open>BB_augment\<close>\<close>

text \<open>
  Modelled from the spec: \<^verbatim>\<open>image_proc.order_points\<close> and \<^verbatim>\<open>image_proc.get_width_height\<close>
  are not among the sources. The specification takes the point with minimum x + y as
  top-left and the point with maximum x + y as bottom-right, and gives width and height as
  the difference between the ordered quadrilateral's bottom-right and top-left points.
  Among points of equal x + y the first one in the array is taken.
\<close>

fun first_best :: "(real \<Rightarrow> real \<Rightarrow> bool) \<Rightarrow> point \<Rightarrow> point list \<Rightarrow> point" where
  "first_best better best [] = best"
| "first_best better best (p # ps) =
     (if better (fst p + snd p) (fst best + snd best) then first_best better p ps
      else first_best better best ps)"

definition top_left :: "box \<Rightarrow> point" where
  "top_left b = (case b of Box p0 p1 p2 p3 \<Rightarrow> first_best (<) p0 [p1, p2, p3])"

definition bottom_right :: "box \<Rightarrow> point" where
  "bottom_right b = (case b of Box p0 p1 p2 p3 \<Rightarrow> first_best (>) p0 [p1, p2, p3])"

definition get_width_height :: "box \<Rightarrow> real \<times> real" where
  "get_width_height b = pt_sub (bottom_right b) (top_left b)"

text \<open>Elementwise operations on a 4 x 2 array.\<close>

definition box_map2 :: "(point \<Rightarrow> point \<Rightarrow> point) \<Rightarrow> box \<Rightarrow> box \<Rightarrow> box" where
  "box_map2 f a b =
     (case a of Box a0 a1 a2 a3 \<Rightarrow> case b of Box b0 b1 b2 b3 \<Rightarrow>
        Box (f a0 b0) (f a1 b1) (f a2 b2) (f a3 b3))"

definition box_map :: "(point \<Rightarrow> point) \<Rightarrow> box \<Rightarrow> box" where
  "box_map f a = (case a of Box a0 a1 a2 a3 \<Rightarrow> Box (f a0) (f a1) (f a2) (f a3))"

definition box_add :: "box \<Rightarrow> box \<Rightarrow> box" where
  "box_add = box_map2 (\<lambda>p q. (fst p + fst q, snd p + snd q))"

definition box_mul :: "box \<Rightarrow> box \<Rightarrow> box" where
  "box_mul = box_map2 (\<lambda>p q. (fst p * fst q, snd p * snd q))"

definition box_ceil :: "box \<Rightarrow> box" where
  "box_ceil = box_map (\<lambda>p. (of_int \<lceil>fst p\<rceil>, of_int \<lceil>snd p\<rceil>))"

text \<open>\<^verbatim>\<open>np.clip(a, 0, img_wh)\<close>: x is clipped into [0, W] and y into [0, H].\<close>

definition clip :: "real \<Rightarrow> real \<Rightarrow> real \<Rightarrow> real" where
  "clip x lo hi = min hi (max x lo)"

definition box_clip :: "int \<times> int \<Rightarrow> box \<Rightarrow> box" where
  "box_clip img_wh =
     box_map (\<lambda>p. (clip (fst p) 0 (of_int (fst img_wh)), clip (snd p) 0 (of_int (snd img_wh))))"

text \<open>
  The sign pattern of the source (t: -y, l: -x, b: +y, r: +x) and the array
  \<^verbatim>\<open>np.array([noise_x, noise_y]).T\<close> built from the two draws of four values.
\<close>

definition noise_signs :: box where
  "noise_signs = Box (-1, -1) (1, -1) (1, 1) (-1, 1)"

definition noise_array :: "real list \<Rightarrow> real list \<Rightarrow> box" where
  "noise_array noise_x noise_y =
     Box (noise_x ! 0, noise_y ! 0) (noise_x ! 1, noise_y ! 1)
         (noise_x ! 2, noise_y ! 2) (noise_x ! 3, noise_y ! 3)"

text \<open>
  The eight draws for one box (lines 335 to 346): four horizontal values, then four
  vertical ones, each between \<open>-contract_coeff * dim\<close> and \<open>expand_coeff * dim\<close>, with the
  sign pattern applied.
\<close>

definition draw_noise ::
  "('s \<Rightarrow> nat \<times> 's) \<Rightarrow> 's \<Rightarrow> real \<Rightarrow> real \<Rightarrow> box \<Rightarrow> box \<times> 's" where
  "draw_noise gen st expand_coeff contract_coeff BB =
     (case get_width_height BB of (w_c, h_c) \<Rightarrow>
      (let low_x = -1 * contract_coeff * w_c; low_y = -1 * contract_coeff * h_c;
           high_x = expand_coeff * w_c; high_y = expand_coeff * h_c
       in case uniform gen st low_x high_x 4 of (noise_x, st1) \<Rightarrow>
          case uniform gen st1 low_y high_y 4 of (noise_y, st2) \<Rightarrow>
            (box_mul (noise_array noise_x noise_y) noise_signs, st2)))"

text \<open>Line 349: the box plus the noise, rounded up.\<close>

definition ceil_perturbed :: "box \<Rightarrow> box \<Rightarrow> box" where
  "ceil_perturbed BB noise = box_ceil (box_add BB noise)"

text \<open>Line 350 before and after the clipping: the noise is added to the rounded box again.\<close>

definition unclipped :: "box \<Rightarrow> box \<Rightarrow> box" where
  "unclipped BB noise = box_add (ceil_perturbed BB noise) noise"

definition new_charBB :: "int \<times> int \<Rightarrow> box \<Rightarrow> box \<Rightarrow> box" where
  "new_charBB img_wh BB noise = box_clip img_wh (unclipped BB noise)"

text \<open>
  Lines 352 to 355: \<^verbatim>\<open>new_width\<close> and \<^verbatim>\<open>new_height\<close> are read from \<open>BB\<close>, the row of the
  array as it was before the assignment, and the new box is stored when both exceed 1.
\<close>

definition perturb_box ::
  "('s \<Rightarrow> nat \<times> 's) \<Rightarrow> 's \<Rightarrow> int \<times> int \<Rightarrow> real \<Rightarrow> real \<Rightarrow> box \<Rightarrow> box \<times> 's" where
  "perturb_box gen st img_wh expand_coeff contract_coeff BB =
     (case draw_noise gen st expand_coeff contract_coeff BB of (noise, st1) \<Rightarrow>
      (case get_width_height BB of (new_width, new_height) \<Rightarrow>
         if new_width > 1 \<and> new_height > 1 then (new_charBB img_wh BB noise, st1)
         else (BB, st1)))"

text \<open>Truth value of a label in \<^verbatim>\<open>if gts[i]\<close>: \<^verbatim>\<open>None\<close>, the empty string and zero are false.\<close>

fun truthy :: "pyval \<Rightarrow> bool" where
  "truthy (PStr s) = (s \<noteq> [])"
| "truthy PNone = False"
| "truthy (PNum n) = (n \<noteq> 0)"

text \<open>
  The perturbation loop (lines 333 to 355) over the boxes with their index; \<^verbatim>\<open>gts[i]\<close>
  raises \<^verbatim>\<open>IndexError\<close> when there are fewer labels than boxes. The loop assigns into the
  array, so an exception leaves the rows before it perturbed: the error comes with the rows
  as they stand and with the state of the random stream.
\<close>

fun perturb_loop ::
  "('s \<Rightarrow> nat \<times> 's) \<Rightarrow> int \<times> int \<Rightarrow> real \<Rightarrow> real \<Rightarrow> pyval list \<Rightarrow> nat \<Rightarrow> 's \<Rightarrow> box list
     \<Rightarrow> (error \<times> box list \<times> 's) + (box list \<times> 's)" where
  "perturb_loop gen img_wh ec cc gts i st [] = Inr ([], st)"
| "perturb_loop gen img_wh ec cc gts i st (BB # BBs) =
     (if i < length gts then
        (if truthy (gts ! i) then
           (case perturb_box gen st img_wh ec cc BB of (BB1, st1) \<Rightarrow>
              (case perturb_loop gen img_wh ec cc gts (i + 1) st1 BBs of
                 Inl (e, rest, st2) \<Rightarrow> Inl (e, BB1 # rest, st2)
               | Inr (rest, st2) \<Rightarrow> Inr (BB1 # rest, st2)))
         else
           (case perturb_loop gen img_wh ec cc gts (i + 1) st BBs of
              Inl (e, rest, st2) \<Rightarrow> Inl (e, BB # rest, st2)
            | Inr (rest, st2) \<Rightarrow> Inr (BB # rest, st2)))
      else Inl (IndexError, BB # BBs, st))"

text \<open>A Python slice \<^verbatim>\<open>xs[:k]\<close>: \<^verbatim>\<open>None\<close> keeps all, a negative bound counts from the end.\<close>

definition py_slice_to :: "int option \<Rightarrow> 'a list \<Rightarrow> 'a list" where
  "py_slice_to k xs =
     (case k of None \<Rightarrow> xs
      | Some n \<Rightarrow> if 0 \<le> n then take (nat n) xs else take (length xs - nat (- n)) xs)"

text \<open>\<^verbatim>\<open>int(x)\<close> of a float truncates towards zero.\<close>

definition py_int :: "real \<Rightarrow> int" where
  "py_int x = (if 0 \<le> x then \<lfloor>x\<rfloor> else \<lceil>x\<rceil>)"

text \<open>\<^verbatim>\<open>genNonCharBBs\<close> is a stub that returns \<^verbatim>\<open>None\<close>.\<close>

definition genNonCharBBs :: "box list option \<Rightarrow> int \<times> int \<Rightarrow> int \<Rightarrow> nat \<Rightarrow> box list option" where
  "genNonCharBBs wordBBs img_wh N_nonchars retries = None"

text \<open>
  \<^verbatim>\<open>BB_augment\<close>. The arguments follow the source's order; \<open>gen\<close> and \<open>st\<close> are the random
  stream, and the state it is left in is returned with the boxes and labels. The boxes
  are an array of floating-point numbers, as the archive of the synthetic corpus gives
  them; into an array of integers the assignment of line 355 would truncate. The assertion
  on \<open>fraction_nonchar\<close> stands inside the \<open>nonchars\<close> branch. The branch that would
  concatenate generated boxes is never entered, since \<^verbatim>\<open>genNonCharBBs\<close> returns \<^verbatim>\<open>None\<close>; its
  call of \<^verbatim>\<open>np.concatenate\<close> with two positional arrays would raise \<^verbatim>\<open>TypeError\<close>.

  The shuffles and the assignments of the loop work in place on the arguments. A slice of
  the box array is a view of its first rows, a slice of the label list is a new list. So an
  exception leaves the caller's array and list as the steps before it made them, and the
  error result carries them with the state of the random stream at that moment: the
  caller's array is the view followed by the rows beyond it, the caller's list is the list
  after the first shuffle.
\<close>

definition BB_augment ::
  "('s \<Rightarrow> nat \<times> 's) \<Rightarrow> 's \<Rightarrow> box list \<Rightarrow> box list option \<Rightarrow> pyval list \<Rightarrow> int \<times> int \<Rightarrow>
     bool \<Rightarrow> bool \<Rightarrow> int option \<Rightarrow> real \<Rightarrow> real \<Rightarrow> real \<Rightarrow>
     (error \<times> box list \<times> pyval list \<times> 's) + (box list \<times> pyval list \<times> 's)" where
  "BB_augment gen st charBBs wordBBs gts img_wh nonchars shuffle_flag batch_size_limit
       fraction_nonchar expand_coeff contract_coeff =
     (case (case batch_size_limit of
              None \<Rightarrow> (int (length gts), None)
            | Some l \<Rightarrow> if l \<le> 0 then (int (length gts), None)
                        else (min (int (length gts)) l, Some l)) of
        (N, limit) \<Rightarrow>
      (case (if nonchars then
               (if \<not> fraction_nonchar < 1 then Inl (AssertionError, charBBs, gts, st)
                else
                  (let N_nonchars = py_int (fraction_nonchar * of_int N);
                       noncharBBs = genNonCharBBs wordBBs img_wh N_nonchars 10
                   in case shuffle_in_unison gen st charBBs gts of (c1, g1, st1) \<Rightarrow>
                      (let c2 = py_slice_to (Some (N - N_nonchars)) c1;
                           g2 = py_slice_to (Some (N - N_nonchars)) g1
                       in case noncharBBs of
                            Some extra \<Rightarrow> Inl (TypeError, c1, g1, st1)
                          | None \<Rightarrow>
                              (case shuffle_in_unison gen st1 c2 g2 of (c3, g3, st3) \<Rightarrow>
                                 Inr (c3, g3, st3, drop (length c2) c1, g1)))))
             else if shuffle_flag then
               (case shuffle_in_unison gen st charBBs gts of (c1, g1, st1) \<Rightarrow>
                  Inr (c1, g1, st1, [], g1))
             else Inr (charBBs, gts, st, [], gts)) of
         Inl failure \<Rightarrow> Inl failure
       | Inr (c3, g3, st3, beyond, caller_gts) \<Rightarrow>
           (let c4 = py_slice_to limit c3; g4 = py_slice_to limit g3
            in case perturb_loop gen img_wh expand_coeff contract_coeff g4 0 st3 c4 of
                 Inl (e, c5, st5) \<Rightarrow>
                   Inl (e, c5 @ drop (length c4) c3 @ beyond, caller_gts, st5)
               | Inr (c5, st5) \<Rightarrow> Inr (c5, g4, st5))))"

section \<open>The batch of the two sample pipelines\<close>

text \<open>
  Both \<^verbatim>\<open>__getitem__\<close> methods allocate \<^verbatim>\<open>batch = np.zeros((N, C, *size))\<close> with \<open>N\<close> the
  number of labels and store in row \<open>i\<close> the crop of the \<open>i\<close>-th box, resized and
  transposed. Cropping and resizing belong to PIL and OpenCV; they enter as the function
  \<open>crop\<close> from a box to the pixel values of its row, a row being \<open>row_len\<close> values.
  Storing beyond the last row raises \<^verbatim>\<open>IndexError\<close>.
\<close>

fun fill_batch ::
  "(box \<Rightarrow> real list) \<Rightarrow> nat \<Rightarrow> box list \<Rightarrow> real list list \<Rightarrow> error + real list list" where
  "fill_batch crop i [] batch = Inr batch"
| "fill_batch crop i (charBB # charBBs) batch =
     (if i < length batch then fill_batch crop (i + 1) charBBs (batch[i := crop charBB])
      else Inl IndexError)"

definition crop_batch ::
  "(box \<Rightarrow> real list) \<Rightarrow> nat \<Rightarrow> box list \<Rightarrow> 'g list \<Rightarrow> error + real list list" where
  "crop_batch crop row_len charBBs chars =
     fill_batch crop 0 charBBs (replicate (length chars) (replicate row_len 0))"

text \<open>
  \<^verbatim>\<open>SynthCharDataset.__getitem__\<close>, lines 94 to 116: the batch is filled and then scaled in
  three steps, \<^verbatim>\<open>batch /= 255.0\<close>, \<^verbatim>\<open>batch -= 0.5\<close>, \<^verbatim>\<open>batch *= 2\<close>.
\<close>

definition SynthCharDataset_batch ::
  "(box \<Rightarrow> real list) \<Rightarrow> nat \<Rightarrow> box list \<Rightarrow> 'g list \<Rightarrow> error + real list list" where
  "SynthCharDataset_batch crop row_len charBBs chars =
     (case crop_batch crop row_len charBBs chars of
        Inl e \<Rightarrow> Inl e
      | Inr batch \<Rightarrow>
          (let batch1 = map (map (\<lambda>x. x / 255)) batch;
               batch2 = map (map (\<lambda>x. x - 1 / 2)) batch1;
               batch3 = map (map (\<lambda>x. x * 2)) batch2
           in Inr batch3))"

text \<open>
  \<^verbatim>\<open>ICDAR2013CharDataset.__getitem__\<close>, lines 228 to 245: the batch is filled and converted
  to a tensor as it is; there is no scaling step.
\<close>

definition ICDAR2013CharDataset_batch ::
  "(box \<Rightarrow> real list) \<Rightarrow> nat \<Rightarrow> box list \<Rightarrow> 'g list \<Rightarrow> error + real list list" where
  "ICDAR2013CharDataset_batch crop row_len charBBs chars =
     (case crop_batch crop row_len charBBs chars of
        Inl e \<Rightarrow> Inl e
      | Inr batch \<Rightarrow> Inr batch)"

text \<open>The property of claim C2: every value of every row lies in [-1, 1].\<close>

definition in_unit_range :: "real list list \<Rightarrow> bool" where
  "in_unit_range batch = list_all (list_all (\<lambda>x. - 1 \<le> x \<and> x \<le> 1)) batch"

section \<open>\<^verbatim>\<open>string_to_onehot\<close>\<close>

text \<open>
  The \<open>alphabet\<close> argument is \<^verbatim>\<open>None\<close>, a string or a list of labels (the module constant
  \<^verbatim>\<open>ALPHABET\<close> is a list of one-character strings followed by \<^verbatim>\<open>None\<close>).
\<close>

datatype pyalphabet = AlphaNone | AlphaStr string | AlphaList "pyval list"

definition default_alphabet :: string where
  "default_alphabet = ''AaBbCDdEeFfGgHhIiJjKLlMmNnOPQqRrSTtUVWXYZ''"

definition ALPHABET :: pyalphabet where
  "ALPHABET = AlphaList (map (\<lambda>c. PStr [c]) default_alphabet @ [PNone])"

text \<open>\<^verbatim>\<open>not alphabet\<close>: \<^verbatim>\<open>None\<close>, the empty string and the empty list are false.\<close>

fun alphabet_falsy :: "pyalphabet \<Rightarrow> bool" where
  "alphabet_falsy AlphaNone = True"
| "alphabet_falsy (AlphaStr s) = (s = [])"
| "alphabet_falsy (AlphaList l) = (l = [])"

text \<open>The elements \<^verbatim>\<open>enumerate(alphabet)\<close> runs through; a string yields its characters.\<close>

fun alphabet_items :: "pyalphabet \<Rightarrow> pyval list" where
  "alphabet_items AlphaNone = []"
| "alphabet_items (AlphaStr s) = map (\<lambda>c. PStr [c]) s"
| "alphabet_items (AlphaList l) = l"

text \<open>
  \<^verbatim>\<open>char in alphabet\<close> for a string \<open>char\<close>: membership in a list, substring test in a
  string, and \<^verbatim>\<open>TypeError\<close> for \<^verbatim>\<open>None\<close>.
\<close>

fun starts_with :: "'a list \<Rightarrow> 'a list \<Rightarrow> bool" where
  "starts_with [] ys = True"
| "starts_with (x # xs) [] = False"
| "starts_with (x # xs) (y # ys) = (x = y \<and> starts_with xs ys)"

fun is_substring :: "'a list \<Rightarrow> 'a list \<Rightarrow> bool" where
  "is_substring xs [] = (xs = [])"
| "is_substring xs (y # ys) = (starts_with xs (y # ys) \<or> is_substring xs ys)"

fun str_in_alphabet :: "string \<Rightarrow> pyalphabet \<Rightarrow> error + bool" where
  "str_in_alphabet c AlphaNone = Inl TypeError"
| "str_in_alphabet c (AlphaStr s) = Inr (is_substring c s)"
| "str_in_alphabet c (AlphaList l) = Inr (PStr c \<in> set l)"

text \<open>
  \<^verbatim>\<open>str.swapcase\<close> on the letters of ASCII; other characters are left as they are. The
  characters of HOL are bytes, so the case pairs beyond ASCII are outside the model.
\<close>

definition swapcase_char :: "char \<Rightarrow> char" where
  "swapcase_char c =
     (let n = (of_char c :: nat)
      in if 65 \<le> n \<and> n \<le> 90 then char_of (n + 32)
         else if 97 \<le> n \<and> n \<le> 122 then char_of (n - 32)
         else c)"

definition swapcase :: "string \<Rightarrow> string" where
  "swapcase s = map swapcase_char s"

text \<open>
  A dictionary as an association list with distinct keys: storing under a key that is
  present overwrites the value, under a new key adds an entry. \<^verbatim>\<open>dict(pairs)\<close> stores the
  pairs from left to right.
\<close>

definition dict_of :: "('k \<times> 'v) list \<Rightarrow> ('k \<times> 'v) list" where
  "dict_of pairs = foldl (\<lambda>d p. AList.update (fst p) (snd p) d) [] pairs"

definition dict_get :: "('k \<times> 'v) list \<Rightarrow> 'k \<Rightarrow> error + 'v" where
  "dict_get d k = (case map_of d k of None \<Rightarrow> Inl KeyError | Some v \<Rightarrow> Inr v)"

text \<open>Lines 376 and 377: a false \<open>alphabet\<close> is replaced by the default string.\<close>

definition effective_alphabet :: "pyalphabet \<Rightarrow> pyalphabet" where
  "effective_alphabet alphabet =
     (if alphabet_falsy alphabet then AlphaStr default_alphabet else alphabet)"

text \<open>Lines 375 to 381: the mapping and the alphabet the loop works with.\<close>

definition build_char_to_int ::
  "pyalphabet \<Rightarrow> (pyval \<times> nat) list option \<Rightarrow> bool \<Rightarrow> pyalphabet \<times> (pyval \<times> nat) list" where
  "build_char_to_int alphabet char_to_int include_nonchar =
     (if char_to_int = None \<or> char_to_int = Some [] then
        (let alphabet1 = effective_alphabet alphabet;
             items = alphabet_items alphabet1;
             d = dict_of (zip items [0..<length items]);
             d1 = (if include_nonchar \<and> map_of d PNone = None
                   then AList.update PNone (length d) d else d)
         in (alphabet1, d1))
      else (alphabet, the char_to_int))"

text \<open>Lines 386 to 394 for one label.\<close>

definition encode_char ::
  "pyalphabet \<Rightarrow> (pyval \<times> nat) list \<Rightarrow> pyval \<Rightarrow> error + nat" where
  "encode_char alphabet char_to_int char =
     (case char of
        PStr c \<Rightarrow>
          (case str_in_alphabet c alphabet of
             Inl e \<Rightarrow> Inl e
           | Inr present \<Rightarrow>
               (let c1 = (if \<not> present then swapcase c else c)
                in case str_in_alphabet c1 alphabet of
                     Inl e \<Rightarrow> Inl e
                   | Inr present1 \<Rightarrow>
                       dict_get char_to_int (if \<not> present1 then PNone else PStr c1)))
      | _ \<Rightarrow> dict_get char_to_int PNone)"

fun encode_loop ::
  "pyalphabet \<Rightarrow> (pyval \<times> nat) list \<Rightarrow> pyval list \<Rightarrow> error + nat list" where
  "encode_loop alphabet char_to_int [] = Inr []"
| "encode_loop alphabet char_to_int (char # rest) =
     (case encode_char alphabet char_to_int char of
        Inl e \<Rightarrow> Inl e
      | Inr j \<Rightarrow>
          (case encode_loop alphabet char_to_int rest of
             Inl e \<Rightarrow> Inl e
           | Inr js \<Rightarrow> Inr (j # js)))"

text \<open>
  The result is a tensor of one-hot rows of width \<^verbatim>\<open>len(char_to_int)\<close>, or the tensor of the
  indices. Setting a column beyond the width raises \<^verbatim>\<open>IndexError\<close>.
\<close>

datatype tensor = OneHots "real list list" | Indices "nat list"

fun one_hot_rows :: "nat \<Rightarrow> nat list \<Rightarrow> error + real list list" where
  "one_hot_rows width [] = Inr []"
| "one_hot_rows width (j # js) =
     (if j < width then
        (case one_hot_rows width js of
           Inl e \<Rightarrow> Inl e
         | Inr rows \<Rightarrow> Inr ((replicate width 0)[j := 1] # rows))
      else Inl IndexError)"

definition string_to_onehot ::
  "pyval list \<Rightarrow> pyalphabet \<Rightarrow> (pyval \<times> nat) list option \<Rightarrow> bool \<Rightarrow> bool \<Rightarrow> error + tensor" where
  "string_to_onehot string alphabet char_to_int include_nonchar to_onehot =
     (case build_char_to_int alphabet char_to_int include_nonchar of
        (alphabet1, char_to_int1) \<Rightarrow>
          (case encode_loop alphabet1 char_to_int1 string of
             Inl e \<Rightarrow> Inl e
           | Inr encoded_data \<Rightarrow>
               if to_onehot then
                 (case one_hot_rows (length char_to_int1) encoded_data of
                    Inl e \<Rightarrow> Inl e
                  | Inr one_hots \<Rightarrow> Inr (OneHots one_hots))
               else Inr (Indices encoded_data)))"

text \<open>
  The mapping of one label in the words of the specification. The position of an element
  is its index in the alphabet; an element that does not occur gets the length.
\<close>

fun position :: "'a list \<Rightarrow> 'a \<Rightarrow> nat" where
  "position [] x = 0"
| "position (y # ys) x = (if x = y then 0 else Suc (position ys x))"

definition sentinel_index :: "pyval list \<Rightarrow> nat" where
  "sentinel_index items = (if PNone \<in> set items then position items PNone else length items)"

fun spec_index :: "pyval list \<Rightarrow> pyval \<Rightarrow> nat" where
  "spec_index items (PStr c) =
     (if PStr c \<in> set items then position items (PStr c)
      else if PStr (swapcase c) \<in> set items then position items (PStr (swapcase c))
      else sentinel_index items)"
| "spec_index items PNone = sentinel_index items"
| "spec_index items (PNum n) = sentinel_index items"

text \<open>A label the claim speaks about: a one-character string or a value that is no string.\<close>

fun char_or_nonstring :: "pyval \<Rightarrow> bool" where
  "char_or_nonstring (PStr c) = (length c = 1)"
| "char_or_nonstring PNone = True"
| "char_or_nonstring (PNum n) = True"

section \<open>\<^verbatim>\<open>genBalancedCharDataset\<close>\<close>

text \<open>
  The corpus is the list of the images of the archive. An image is given by whether its
  file can be read and by its characters in order, each with the flag whether the file at
  its \<^verbatim>\<open>char_path\<close> exists already. That path holds the image index and the position of the
  character, and \<^verbatim>\<open>random.sample\<close> visits every image once, so a path is tested once and
  before the loop has written to it: whether it exists is a property of the occurrence.
  The random order of the visit is the argument \<open>order\<close>.
\<close>

type_synonym occurrence = "char \<times> bool"

type_synonym image_entry = "bool \<times> occurrence list"

text \<open>
  The loop over the characters of one image (lines 459 to 478). The distribution is a
  dictionary from class to count. For an image that cannot be read \<^verbatim>\<open>getCroppedImage\<close>
  returns \<^verbatim>\<open>None\<close> and \<^verbatim>\<open>cv2.imwrite\<close> raises on it.
\<close>

fun char_loop ::
  "bool \<Rightarrow> int \<Rightarrow> bool \<Rightarrow> (char \<rightharpoonup> int) \<Rightarrow> occurrence list \<Rightarrow> error + (char \<rightharpoonup> int)" where
  "char_loop skip_existing N_max img_ok distribution [] = Inr distribution"
| "char_loop skip_existing N_max img_ok distribution ((ch, is_file) # rest) =
     (case distribution ch of
        None \<Rightarrow> char_loop skip_existing N_max img_ok distribution rest
      | Some n \<Rightarrow>
          if n \<ge> N_max then char_loop skip_existing N_max img_ok distribution rest
          else if skip_existing \<and> is_file then
            char_loop skip_existing N_max img_ok distribution rest
          else if \<not> img_ok then Inl CvError
          else char_loop skip_existing N_max img_ok (distribution(ch \<mapsto> n + 1)) rest)"

text \<open>\<^verbatim>\<open>min(distribution.values()) >= N_max\<close>, the keys being the classes.\<close>

definition all_full :: "char list \<Rightarrow> (char \<rightharpoonup> int) \<Rightarrow> int \<Rightarrow> bool" where
  "all_full classes distribution N_max =
     list_all (\<lambda>c. case distribution c of None \<Rightarrow> True | Some n \<Rightarrow> N_max \<le> n) classes"

text \<open>The loop over the images in the order of the visit (lines 449 to 478).\<close>

fun image_loop ::
  "bool \<Rightarrow> int \<Rightarrow> char list \<Rightarrow> (char \<rightharpoonup> int) \<Rightarrow> image_entry list \<Rightarrow> error + (char \<rightharpoonup> int)" where
  "image_loop skip_existing N_max classes distribution [] = Inr distribution"
| "image_loop skip_existing N_max classes distribution (img # rest) =
     (if all_full classes distribution N_max then Inr distribution
      else
        (case char_loop skip_existing N_max (fst img) distribution (snd img) of
           Inl e \<Rightarrow> Inl e
         | Inr distribution1 \<Rightarrow> image_loop skip_existing N_max classes distribution1 rest))"

text \<open>
  \<^verbatim>\<open>genBalancedCharDataset\<close>: the result is the distribution that the source prints at the
  end. A missing or empty \<open>classes\<close> is replaced by the default alphabet.
\<close>

definition tracked_classes :: "char list option \<Rightarrow> char list" where
  "tracked_classes classes =
     (case classes of None \<Rightarrow> default_alphabet
      | Some cs \<Rightarrow> if cs = [] then default_alphabet else cs)"

definition genBalancedCharDataset ::
  "int \<Rightarrow> image_entry list \<Rightarrow> nat list \<Rightarrow> bool \<Rightarrow> char list option \<Rightarrow> error + (char \<rightharpoonup> int)" where
  "genBalancedCharDataset N_max f order skip_existing classes =
     (let classes1 = tracked_classes classes;
          distribution = map_of (map (\<lambda>c. (c, 0)) classes1)
      in image_loop skip_existing N_max classes1 distribution (map (\<lambda>i. f ! i) order))"

text \<open>
  The extractable occurrences of a class in a list of occurrences and in a corpus: those
  that the skip of existing files does not pass over.
\<close>

definition extractable :: "bool \<Rightarrow> char \<Rightarrow> occurrence list \<Rightarrow> nat" where
  "extractable skip_existing c occs =
     length (filter (\<lambda>p. fst p = c \<and> \<not> (skip_existing \<and> snd p)) occs)"

definition extractable_total :: "bool \<Rightarrow> char \<Rightarrow> image_entry list \<Rightarrow> nat" where
  "extractable_total skip_existing c f = sum_list (map (\<lambda>img. extractable skip_existing c (snd img)) f)"

text \<open>
  The distribution after some occurrences: every count grown by the number \<open>e c\<close> of
  extractable occurrences of its class, up to the target. A distribution is bounded when no
  count exceeds the target.
\<close>

definition saturate :: "int \<Rightarrow> (char \<Rightarrow> nat) \<Rightarrow> (char \<rightharpoonup> int) \<Rightarrow> (char \<rightharpoonup> int)" where
  "saturate N_max e d = (\<lambda>c. map_option (\<lambda>n. min N_max (n + int (e c))) (d c))"

definition bounded :: "int \<Rightarrow> (char \<rightharpoonup> int) \<Rightarrow> bool" where
  "bounded N_max d = (\<forall>c n. d c = Some n \<longrightarrow> n \<le> N_max)"

section \<open>Example inputs\<close>

text \<open>Boxes on a 10 x 10 image: one inside, one touching the right and bottom edge, one only 1 wide.\<close>

definition box_a :: box where "box_a = Box (2, 3) (8, 3) (8, 9) (2, 9)"
definition box_edge :: box where "box_edge = Box (0, 0) (10, 0) (10, 10) (0, 10)"
definition box_thin :: box where "box_thin = Box (4, 4) (5, 4) (5, 7) (4, 7)"


text \<open>A raw generator that counts: the n-th raw draw is n.\<close>

definition count_gen :: "nat \<Rightarrow> nat \<times> nat" where
  "count_gen s = (s, s + 1)"


text \<open>
  Raw generators whose every draw of \<^verbatim>\<open>random_sample\<close> is 1/8 and 7/8 (2^50 and 7 * 2^50 over
  2^53), two axis-aligned boxes on a 100 x 100 image, and the values the perturbation
  computes for them.
\<close>

definition eighth_gen :: "nat \<Rightarrow> nat \<times> nat" where
  "eighth_gen s = (1125899906842624, s + 1)"

definition seven_eighths_gen :: "nat \<Rightarrow> nat \<times> nat" where
  "seven_eighths_gen s = (7881299347898368, s + 1)"

definition small_box :: box where "small_box = Box (10, 10) (12, 10) (12, 12) (10, 12)"
definition big_box :: box where "big_box = Box (10, 10) (20, 10) (20, 20) (10, 20)"

definition noise_big :: box where
  "noise_big = Box (- (3 / 2), - (3 / 2)) (3 / 2, - (3 / 2)) (3 / 2, 3 / 2) (- (3 / 2), 3 / 2)"

definition perturbed_big :: box where
  "perturbed_big = Box (15 / 2, 15 / 2) (47 / 2, 15 / 2) (47 / 2, 47 / 2) (15 / 2, 47 / 2)"

definition perturbed_small :: box where
  "perturbed_small =
     Box (113 / 10, 113 / 10) (117 / 10, 113 / 10) (117 / 10, 117 / 10) (113 / 10, 117 / 10)"


text \<open>A crop of three pixel values: white, black and mid grey.\<close>

definition crop_wbg :: "box \<Rightarrow> real list" where
  "crop_wbg b = [255, 0, 128]"


text \<open>
  A corpus of three readable images with the classes a and b; one file of class a exists
  already.
\<close>

definition corpus3 :: "image_entry list" where
  "corpus3 =
     [(True, [(CHR ''a'', False), (CHR ''b'', False), (CHR ''x'', False)]),
      (True, [(CHR ''a'', True), (CHR ''b'', False), (CHR ''a'', False)]),
      (True, [(CHR ''a'', False), (CHR ''b'', False)])]"

text \<open>
  A corpus of two images with the class a: the file of the first image is missing, the
  second image can be read and holds the class twice. No character file exists yet.
\<close>

definition corpus_missing :: "image_entry list" where
  "corpus_missing =
     [(False, [(CHR ''a'', False)]),
      (True, [(CHR ''a'', False), (CHR ''a'', False)])]"

section \<open>Properties of \<^verbatim>\<open>filter_BBs\<close>\<close>

lemma filter_loop_step:
  "filter_loop img_wh gts i (BB # BBs) =
     (if kept img_wh BB then
        (if i < length gts then
           (case filter_loop img_wh gts (i + 1) BBs of
              Inl e \<Rightarrow> Inl e
            | Inr (m, g) \<Rightarrow> Inr (True # m, gts ! i # g))
         else Inl IndexError)
      else
        (case filter_loop img_wh gts (i + 1) BBs of
           Inl e \<Rightarrow> Inl e
         | Inr (m, g) \<Rightarrow> Inr (False # m, g)))"
  by (auto simp: kept_def pt_sub_def split: prod.splits sum.splits)

lemma filter_loop_ok:
  "i + length BBs \<le> length gts \<Longrightarrow>
   filter_loop img_wh gts i BBs =
     Inr (map (kept img_wh) BBs,
          map snd (filter (\<lambda>p. kept img_wh (fst p)) (zip BBs (drop i gts))))"
proof (induction BBs arbitrary: i)
  case Nil
  then show ?case by simp
next
  case (Cons BB BBs)
  from Cons.prems have lt: "i < length gts" and le: "(i + 1) + length BBs \<le> length gts"
    by simp_all
  have dr: "drop i gts = gts ! i # drop (i + 1) gts"
    using lt by (simp add: Cons_nth_drop_Suc)
  show ?case
    unfolding filter_loop_step Cons.IH [OF le] dr using lt by simp
qed

lemma mask_select_map:
  "mask_select xs (map P xs) = filter P xs"
  by (induction xs) (auto simp: mask_select_def)

lemma filter_BBs_zip:
  assumes "length BBs = length gts"
  shows "filter_BBs BBs gts img_wh =
           Inr (map fst (filter (\<lambda>p. kept img_wh (fst p)) (zip BBs gts)),
                map snd (filter (\<lambda>p. kept img_wh (fst p)) (zip BBs gts)))"
proof -
  have "filter_loop img_wh gts 0 BBs =
          Inr (map (kept img_wh) BBs,
               map snd (filter (\<lambda>p. kept img_wh (fst p)) (zip BBs gts)))"
    using filter_loop_ok [of 0 BBs gts img_wh] assms by simp
  moreover have "map fst (filter (\<lambda>p. kept img_wh (fst p)) (zip BBs gts)) =
                 filter (kept img_wh) BBs"
    using assms by (induction BBs gts rule: list_induct2) auto
  ultimately show ?thesis
    by (simp add: filter_BBs_def mask_select_map)
qed

lemma filter_loop_shape:
  "filter_loop img_wh gts i BBs = Inr (m, g) \<Longrightarrow>
     m = map (kept img_wh) BBs \<and> length g = length (filter (kept img_wh) BBs)"
proof (induction BBs arbitrary: i m g)
  case Nil
  then show ?case by simp
next
  case (Cons BB BBs)
  then show ?case
    unfolding filter_loop_step
    by (auto split: if_splits sum.splits)
qed

lemma filter_all_kept:
  "length bs = length gs \<Longrightarrow> \<forall>b\<in>set bs. P b \<Longrightarrow>
     filter (\<lambda>p. P (fst p)) (zip bs gs) = zip bs gs"
  by (induction bs gs rule: list_induct2) auto

lemma filter_BBs_shape:
  assumes "filter_BBs BBs gts img_wh = Inr (bs, gs)"
  shows "bs = filter (kept img_wh) BBs \<and> length gs = length bs"
proof -
  from assms obtain m g where l: "filter_loop img_wh gts 0 BBs = Inr (m, g)"
    and r: "bs = mask_select BBs m" "gs = g"
    by (auto simp: filter_BBs_def split: sum.splits)
  from filter_loop_shape [OF l] r show ?thesis
    by (simp add: mask_select_map)
qed

lemma kept_box_a: "kept (10, 10) box_a"
  by (simp add: kept_def box_a_def get_containing_rect_def min4_def max4_def)
lemma kept_box_edge: "\<not> kept (10, 10) box_edge"
  by (simp add: kept_def box_edge_def get_containing_rect_def min4_def max4_def)
lemma kept_box_thin: "\<not> kept (10, 10) box_thin"
  by (simp add: kept_def box_thin_def get_containing_rect_def min4_def max4_def)

lemma filter_as_indices:
  "filter P xs = map ((!) xs) (filter (\<lambda>i. P (xs ! i)) [0..<length xs])"
proof -
  have "filter P xs = filter P (map ((!) xs) [0..<length xs])"
    by (simp add: map_nth)
  also have "\<dots> = map ((!) xs) (filter (P \<circ> (!) xs) [0..<length xs])"
    by (simp only: filter_map)
  finally show ?thesis by (simp add: comp_def)
qed

lemma filter_zip_indices:
  assumes "length xs = length ys"
  shows "filter (\<lambda>p. P (fst p)) (zip xs ys) =
           map (\<lambda>i. (xs ! i, ys ! i)) (filter (\<lambda>i. P (xs ! i)) [0..<length xs])"
proof -
  have len: "length (zip xs ys) = length xs"
    using assms by simp
  have "filter (\<lambda>p. P (fst p)) (zip xs ys) =
          map ((!) (zip xs ys)) (filter (\<lambda>i. P (fst (zip xs ys ! i))) [0..<length xs])"
    using filter_as_indices [of "\<lambda>p. P (fst p)" "zip xs ys"] unfolding len .
  also have "filter (\<lambda>i. P (fst (zip xs ys ! i))) [0..<length xs] =
             filter (\<lambda>i. P (xs ! i)) [0..<length xs]"
    by (rule filter_cong) (simp_all add: assms)
  also have "map ((!) (zip xs ys)) (filter (\<lambda>i. P (xs ! i)) [0..<length xs]) =
             map (\<lambda>i. (xs ! i, ys ! i)) (filter (\<lambda>i. P (xs ! i)) [0..<length xs])"
    by (rule map_cong) (simp_all add: assms)
  finally show ?thesis .
qed

text \<open>
  Claim C4, as amended. For equally many boxes and labels, \<^verbatim>\<open>filter_BBs\<close> keeps exactly
  the (box, label) pairs whose containing rectangle has its bottom-right corner strictly
  below the image width and height (a corner equal to the width or height is discarded)
  and is more than 1 wide and more than 1 high; the kept pairs keep their relative order.
\<close>

theorem filter_BBs_keeps_exactly:
  assumes "length BBs = length gts"
  shows "filter_BBs BBs gts (W, H) =
     Inr (map fst (filter (\<lambda>(BB, g). case get_containing_rect BB of (c_tl, c_tr, c_br, c_bl) \<Rightarrow>
              fst c_br < of_int W \<and> snd c_br < of_int H \<and>
              1 < fst c_br - fst c_tl \<and> 1 < snd c_br - snd c_tl) (zip BBs gts)),
          map snd (filter (\<lambda>(BB, g). case get_containing_rect BB of (c_tl, c_tr, c_br, c_bl) \<Rightarrow>
              fst c_br < of_int W \<and> snd c_br < of_int H \<and>
              1 < fst c_br - fst c_tl \<and> 1 < snd c_br - snd c_tl) (zip BBs gts)))"
proof -
  have eq: "(\<lambda>(BB, g). case get_containing_rect BB of (c_tl, c_tr, c_br, c_bl) \<Rightarrow>
              fst c_br < of_int W \<and> snd c_br < of_int H \<and>
              1 < fst c_br - fst c_tl \<and> 1 < snd c_br - snd c_tl) =
            (\<lambda>p::box \<times> 'a. kept (W, H) (fst p))"
    by (auto simp: kept_def fun_eq_iff)
  show ?thesis
    unfolding eq by (rule filter_BBs_zip [OF assms])
qed

theorem filter_BBs_keeps_exactly_witness:
  "length [box_edge, box_a, box_thin] = length [PStr ''x'', PStr ''A'', PNone] \<and>
   filter_BBs [box_edge, box_a, box_thin] [PStr ''x'', PStr ''A'', PNone] (10, 10) =
     Inr ([box_a], [PStr ''A''])"
  using filter_BBs_keeps_exactly [of "[box_edge, box_a, box_thin]" "[PStr ''x'', PStr ''A'', PNone]" 10 10]
    kept_box_a kept_box_edge kept_box_thin
  by (simp add: kept_def)

theorem filter_BBs_boundary_counterexample:
  "filter_BBs [box_edge] [PStr ''A''] (10, 10) \<noteq>
     Inr (map fst (filter (\<lambda>p. spec_kept (10, 10) (fst p)) (zip [box_edge] [PStr ''A''])),
          map snd (filter (\<lambda>p. spec_kept (10, 10) (fst p)) (zip [box_edge] [PStr ''A''])))"
proof -
  have "spec_kept (10, 10) box_edge"
    by (simp add: spec_kept_def box_edge_def get_containing_rect_def min4_def max4_def)
  moreover have "filter_BBs [box_edge] [PStr ''A''] (10, 10) = Inr ([], [])"
    using filter_BBs_zip [of "[box_edge]" "[PStr ''A'']" "(10, 10)"] kept_box_edge by simp
  ultimately show ?thesis by simp
qed

text \<open>
  Claim C7. \<^verbatim>\<open>filter_BBs\<close> is idempotent: whenever it returns boxes and labels, applying it
  to them again with the same image size returns them unchanged.
\<close>

theorem filter_BBs_idempotent:
  assumes "filter_BBs BBs gts img_wh = Inr (bs, gs)"
  shows "filter_BBs bs gs img_wh = Inr (bs, gs)"
proof -
  from filter_BBs_shape [OF assms]
  have bs: "bs = filter (kept img_wh) BBs" and len: "length bs = length gs" by simp_all
  from bs have all: "\<forall>b\<in>set bs. kept img_wh b" by simp
  show ?thesis
    using filter_BBs_zip [OF len, of img_wh] filter_all_kept [OF len all] len by simp
qed

theorem filter_BBs_idempotent_witness:
  "filter_BBs [box_edge, box_a, box_thin] [PStr ''x'', PStr ''A'', PNone] (10, 10) =
     Inr ([box_a], [PStr ''A'']) \<and>
   filter_BBs [box_a] [PStr ''A''] (10, 10) = Inr ([box_a], [PStr ''A''])"
proof -
  have h: "filter_BBs [box_edge, box_a, box_thin] [PStr ''x'', PStr ''A'', PNone] (10, 10) =
     Inr ([box_a], [PStr ''A''])"
    using filter_BBs_zip [of "[box_edge, box_a, box_thin]" "[PStr ''x'', PStr ''A'', PNone]" "(10, 10)"]
      kept_box_a kept_box_edge kept_box_thin by simp
  from filter_BBs_idempotent [OF h] h show ?thesis by simp
qed

text \<open>
  Claim C10. For equally many boxes and labels, \<^verbatim>\<open>filter_BBs\<close> returns equally many boxes
  and labels, and they are the boxes and the labels at one increasing list of input
  positions: the i-th returned label is the one that was paired with the i-th returned box.
\<close>

theorem filter_BBs_pairing:
  assumes "length BBs = length gts"
  shows "\<exists>js bs gs. filter_BBs BBs gts img_wh = Inr (bs, gs) \<and> length bs = length gs \<and>
           sorted_wrt (<) js \<and> (\<forall>j\<in>set js. j < length BBs) \<and>
           bs = map ((!) BBs) js \<and> gs = map ((!) gts) js"
proof -
  define js where "js = filter (\<lambda>i. kept img_wh (BBs ! i)) [0..<length BBs]"
  have f: "filter (\<lambda>p. kept img_wh (fst p)) (zip BBs gts) = map (\<lambda>i. (BBs ! i, gts ! i)) js"
    unfolding js_def by (rule filter_zip_indices [OF assms])
  have r: "filter_BBs BBs gts img_wh = Inr (map ((!) BBs) js, map ((!) gts) js)"
    unfolding filter_BBs_zip [OF assms] f by (simp add: comp_def)
  have s: "sorted_wrt (<) js"
    unfolding js_def by (rule sorted_wrt_filter) simp
  have in_range: "\<forall>j\<in>set js. j < length BBs"
    unfolding js_def by simp
  have l: "length (map ((!) BBs) js) = length (map ((!) gts) js)"
    by simp
  from r l s in_range show ?thesis by blast
qed

theorem filter_BBs_pairing_witness:
  "length [box_edge, box_a, box_thin] = length [PStr ''x'', PStr ''A'', PNone] \<and>
   (\<exists>js bs gs. filter_BBs [box_edge, box_a, box_thin] [PStr ''x'', PStr ''A'', PNone] (10, 10)
        = Inr (bs, gs) \<and> length bs = length gs \<and>
      sorted_wrt (<) js \<and> (\<forall>j\<in>set js. j < length [box_edge, box_a, box_thin]) \<and>
      bs = map ((!) [box_edge, box_a, box_thin]) js \<and>
      gs = map ((!) [PStr ''x'', PStr ''A'', PNone]) js)"
proof -
  have h: "length [box_edge, box_a, box_thin] = length [PStr ''x'', PStr ''A'', PNone]"
    by simp
  from h filter_BBs_pairing [OF h, of "(10, 10)"] show ?thesis
    by (rule conjI)
qed

section \<open>Properties of the shuffle\<close>

lemma random_interval_le: "fst (random_interval gen st mx) \<le> mx"
  by (simp add: random_interval_def less_Suc_eq_le [symmetric])

lemma shuffle_loop_length: "length (fst (shuffle_loop gen k st xs)) = length xs"
  by (induction k arbitrary: st xs) (auto split: prod.splits)

lemma shuffle_loop_mset:
  "k < length xs \<Longrightarrow> mset (fst (shuffle_loop gen k st xs)) = mset xs"
proof (induction k arbitrary: st xs)
  case 0
  then show ?case by simp
next
  case (Suc k)
  obtain j st1 where r: "random_interval gen st (Suc k) = (j, st1)"
    by (cases "random_interval gen st (Suc k)")
  from random_interval_le [of gen st "Suc k"] r have j: "j \<le> Suc k" by simp
  with Suc.prems have jl: "j < length xs" by simp
  let ?ys = "xs[Suc k := xs ! j, j := xs ! Suc k]"
  have "mset ?ys = mset xs"
    using Suc.prems jl by (simp add: mset_swap)
  moreover have "k < length ?ys" using Suc.prems by simp
  ultimately show ?case
    using Suc.IH [of ?ys st1] r by simp
qed

lemma shuffle_loop_map:
  "k < length xs \<Longrightarrow>
   shuffle_loop gen k st (map f xs) =
     (map f (fst (shuffle_loop gen k st xs)), snd (shuffle_loop gen k st xs))"
proof (induction k arbitrary: st xs)
  case 0
  then show ?case by simp
next
  case (Suc k)
  obtain j st1 where r: "random_interval gen st (Suc k) = (j, st1)"
    by (cases "random_interval gen st (Suc k)")
  from random_interval_le [of gen st "Suc k"] r have j: "j \<le> Suc k" by simp
  with Suc.prems have jl: "j < length xs" by simp
  let ?ys = "xs[Suc k := xs ! j, j := xs ! Suc k]"
  have sw: "(map f xs)[Suc k := map f xs ! j, j := map f xs ! Suc k] = map f ?ys"
    using Suc.prems jl by (simp add: map_update)
  have "k < length ?ys" using Suc.prems by simp
  from Suc.IH [OF this, of st1] show ?case
    using r sw by simp
qed

lemma shuffle_map:
  "shuffle gen st (map f xs) = (map f (fst (shuffle gen st xs)), snd (shuffle gen st xs))"
proof (cases xs)
  case Nil
  then show ?thesis by (simp add: shuffle_def)
next
  case (Cons x xs')
  then have "length xs - 1 < length xs" by simp
  from shuffle_loop_map [OF this, of gen st f] show ?thesis
    by (simp add: shuffle_def)
qed

lemma shuffle_mset: "mset (fst (shuffle gen st xs)) = mset xs"
proof (cases xs)
  case Nil
  then show ?thesis by (simp add: shuffle_def)
next
  case (Cons x xs')
  then have "length xs - 1 < length xs" by simp
  from shuffle_loop_mset [OF this, of gen st] show ?thesis
    by (simp add: shuffle_def)
qed

lemma shuffle_length: "length (fst (shuffle gen st xs)) = length xs"
  by (simp add: shuffle_def shuffle_loop_length)

text \<open>The index list that one shuffle of a sequence of length \<open>n\<close> applies.\<close>

lemma shuffle_as_indices:
  "shuffle gen st xs =
     (map ((!) xs) (fst (shuffle gen st [0..<length xs])), snd (shuffle gen st [0..<length xs]))"
proof -
  have "shuffle gen st xs = shuffle gen st (map ((!) xs) [0..<length xs])"
    by (simp add: map_nth)
  then show ?thesis
    by (simp only: shuffle_map)
qed

lemma zip_map_nth:
  "\<forall>i\<in>set p. i < length a \<Longrightarrow> length a = length b \<Longrightarrow>
     zip (map ((!) a) p) (map ((!) b) p) = map ((!) (zip a b)) p"
  by (induction p) auto

text \<open>
  Claim C6. For boxes and labels of equal length and any state of the random stream,
  \<^verbatim>\<open>shuffle_in_unison\<close> rearranges both sequences by one and the same permutation \<open>p\<close> of
  the positions, so the pairs of the output are exactly the pairs of the input.
\<close>

theorem shuffle_in_unison_same_permutation:
  assumes "length a = length b"
  shows "\<exists>p a1 b1 st1. shuffle_in_unison gen st a b = (a1, b1, st1) \<and>
           mset p = mset [0..<length a] \<and>
           a1 = map ((!) a) p \<and> b1 = map ((!) b) p \<and>
           zip a1 b1 = map ((!) (zip a b)) p \<and>
           mset (zip a1 b1) = mset (zip a b)"
proof -
  define p where "p = fst (shuffle gen st [0..<length a])"
  define st1 where "st1 = snd (shuffle gen st [0..<length a])"
  have pm: "mset p = mset [0..<length a]"
    unfolding p_def by (rule shuffle_mset)
  have sa: "shuffle gen st a = (map ((!) a) p, st1)"
    unfolding p_def st1_def by (rule shuffle_as_indices)
  have sb: "shuffle gen st b = (map ((!) b) p, st1)"
    unfolding p_def st1_def assms by (rule shuffle_as_indices)
  have sz: "shuffle gen st (zip a b) = (map ((!) (zip a b)) p, st1)"
    using shuffle_as_indices [of gen st "zip a b"] assms
    by (simp add: p_def st1_def)
  have inr: "\<forall>i\<in>set p. i < length a"
    using pm by (metis atLeastLessThan_iff mset_eq_setD set_upt)
  have z: "zip (map ((!) a) p) (map ((!) b) p) = map ((!) (zip a b)) p"
    using inr assms by (rule zip_map_nth)
  have "mset (fst (shuffle gen st (zip a b))) = mset (zip a b)"
    by (rule shuffle_mset)
  then have m: "mset (zip (map ((!) a) p) (map ((!) b) p)) = mset (zip a b)"
    using sz z by simp
  have "shuffle_in_unison gen st a b = (map ((!) a) p, map ((!) b) p, st1)"
    by (simp add: shuffle_in_unison_def sa sb)
  with pm z m show ?thesis by blast
qed


lemma shuffle_example:
  "shuffle count_gen 0 [a, b, c] = ([c, b, a], 2)"
  by (simp add: shuffle_def count_gen_def random_interval_def numeral_2_eq_2)

theorem shuffle_in_unison_same_permutation_witness:
  "length [box_a, box_edge, box_thin] = length [PStr ''A'', PStr ''b'', PNone] \<and>
   (\<exists>p a1 b1 st1.
      shuffle_in_unison count_gen 0 [box_a, box_edge, box_thin] [PStr ''A'', PStr ''b'', PNone]
        = (a1, b1, st1) \<and>
      mset p = mset [0..<length [box_a, box_edge, box_thin]] \<and>
      a1 = map ((!) [box_a, box_edge, box_thin]) p \<and>
      b1 = map ((!) [PStr ''A'', PStr ''b'', PNone]) p \<and>
      zip a1 b1 = map ((!) (zip [box_a, box_edge, box_thin] [PStr ''A'', PStr ''b'', PNone])) p \<and>
      mset (zip a1 b1) = mset (zip [box_a, box_edge, box_thin] [PStr ''A'', PStr ''b'', PNone]))"
proof -
  have h: "length [box_a, box_edge, box_thin] = length [PStr ''A'', PStr ''b'', PNone]"
    by simp
  from h shuffle_in_unison_same_permutation [OF h, of count_gen 0] show ?thesis
    by (rule conjI)
qed

lemma shuffle_in_unison_example:
  "shuffle_in_unison count_gen 0 [box_a, box_edge, box_thin] [PStr ''A'', PStr ''b'', PNone] =
     ([box_thin, box_edge, box_a], [PNone, PStr ''b'', PStr ''A''], 2)"
  by (simp add: shuffle_in_unison_def shuffle_example)

section \<open>Properties of \<^verbatim>\<open>BB_augment\<close>\<close>

lemma random_sample_range:
  "0 \<le> fst (random_sample gen st) \<and> fst (random_sample gen st) < 1"
proof -
  have "fst (gen st) mod 9007199254740992 < (9007199254740992::nat)" by simp
  then have "real (fst (gen st) mod 9007199254740992) < 9007199254740992"
    by (metis of_nat_less_iff of_nat_numeral)
  then show ?thesis by (simp add: random_sample_def)
qed

lemma uniform_length: "length (fst (uniform gen st low high n)) = n"
proof (induction n arbitrary: st)
  case 0
  then show ?case by simp
next
  case (Suc n)
  obtain u st1 where r: "random_sample gen st = (u, st1)"
    by (cases "random_sample gen st")
  obtain rest st2 where q: "uniform gen st1 low high n = (rest, st2)"
    by (cases "uniform gen st1 low high n")
  from Suc.IH [of st1] q have "length rest = n" by simp
  with r q show ?case by simp
qed

lemma uniform_range:
  "low \<le> high \<Longrightarrow> v \<in> set (fst (uniform gen st low high n)) \<Longrightarrow> low \<le> v \<and> v \<le> high"
proof (induction n arbitrary: st)
  case 0
  then show ?case by simp
next
  case (Suc n)
  obtain u st1 where r: "random_sample gen st = (u, st1)"
    by (cases "random_sample gen st")
  from random_sample_range [of gen st] r have u: "0 \<le> u" "u < 1" by simp_all
  have lo: "low \<le> low + (high - low) * u"
    using Suc.prems(1) u by simp
  have "(high - low) * u \<le> (high - low) * 1"
    using Suc.prems(1) u by (intro mult_left_mono) simp_all
  then have hi: "low + (high - low) * u \<le> high" by simp
  from Suc.prems(2) r
  have "v = low + (high - low) * u \<or> v \<in> set (fst (uniform gen st1 low high n))"
    by (auto split: prod.splits)
  then show ?case
    using lo hi Suc.IH [OF Suc.prems(1), of st1] by blast
qed

lemma ceil_outward:
  fixes c v d :: real
  assumes "- (cc * d) \<le> v" "v \<le> ec * d" "s = 1 \<or> s = - 1"
  shows "- (cc * d) - 1 < s * (of_int \<lceil>c + v * s\<rceil> - c) \<and>
         s * (of_int \<lceil>c + v * s\<rceil> - c) < ec * d + 1"
proof -
  define x :: real where "x = of_int \<lceil>c + v * s\<rceil>"
  have a: "c + v * s \<le> x"
    unfolding x_def by (rule le_of_int_ceiling)
  have b: "x < c + v * s + 1"
    unfolding x_def by linarith
  from assms(3) have "- (cc * d) - 1 < s * (x - c) \<and> s * (x - c) < ec * d + 1"
  proof
    assume "s = 1"
    with a b assms(1,2) show ?thesis by simp
  next
    assume "s = - 1"
    with a b assms(1,2) show ?thesis by simp
  qed
  then show ?thesis by (simp only: x_def)
qed


lemma less_four: "k < 4 \<Longrightarrow> k = 0 \<or> k = 1 \<or> k = 2 \<or> k = (3::nat)"
  by arith

lemma corners_box_map2:
  "k < 4 \<Longrightarrow> corners (box_map2 f a b) ! k = f (corners a ! k) (corners b ! k)"
  by (cases a; cases b) (auto simp: corners_def box_map2_def dest!: less_four)

lemma corners_box_map:
  "k < 4 \<Longrightarrow> corners (box_map f a) ! k = f (corners a ! k)"
  by (cases a) (auto simp: corners_def box_map_def dest!: less_four)

lemma corners_noise_array:
  "k < 4 \<Longrightarrow> corners (noise_array nx ny) ! k = (nx ! k, ny ! k)"
  by (auto simp: corners_def noise_array_def dest!: less_four)

lemma noise_signs_unit:
  "k < 4 \<Longrightarrow> (fst (corners noise_signs ! k) = 1 \<or> fst (corners noise_signs ! k) = - 1) \<and>
               (snd (corners noise_signs ! k) = 1 \<or> snd (corners noise_signs ! k) = - 1)"
  by (auto simp: corners_def noise_signs_def dest!: less_four)

lemma draw_noise_corner:
  assumes "0 \<le> ec" "0 \<le> cc" "get_width_height BB = (w, h)" "0 \<le> w" "0 \<le> h"
    and "draw_noise gen st ec cc BB = (noise, st1)" and "k < 4"
  shows "\<exists>vx vy. - (cc * w) \<le> vx \<and> vx \<le> ec * w \<and> - (cc * h) \<le> vy \<and> vy \<le> ec * h \<and>
           corners noise ! k =
             (vx * fst (corners noise_signs ! k), vy * snd (corners noise_signs ! k))"
proof -
  obtain nx sa where ux: "uniform gen st (- 1 * cc * w) (ec * w) 4 = (nx, sa)"
    by (cases "uniform gen st (- 1 * cc * w) (ec * w) 4")
  obtain ny sb where uy: "uniform gen sa (- 1 * cc * h) (ec * h) 4 = (ny, sb)"
    by (cases "uniform gen sa (- 1 * cc * h) (ec * h) 4")
  have n: "noise = box_mul (noise_array nx ny) noise_signs"
    using assms(6) ux uy by (simp add: draw_noise_def assms(3))
  have lx: "length nx = 4"
    using uniform_length [of gen st "- 1 * cc * w" "ec * w" 4] ux by simp
  have ly: "length ny = 4"
    using uniform_length [of gen sa "- 1 * cc * h" "ec * h" 4] uy by simp
  have ox: "- 1 * cc * w \<le> ec * w"
    using assms(1,2,4) by (simp add: order_trans [of _ 0])
  have oy: "- 1 * cc * h \<le> ec * h"
    using assms(1,2,5) by (simp add: order_trans [of _ 0])
  have "nx ! k \<in> set (fst (uniform gen st (- 1 * cc * w) (ec * w) 4))"
    using ux lx assms(7) by simp
  from uniform_range [OF ox this] have rx: "- (cc * w) \<le> nx ! k" "nx ! k \<le> ec * w"
    by simp_all
  have "ny ! k \<in> set (fst (uniform gen sa (- 1 * cc * h) (ec * h) 4))"
    using uy ly assms(7) by simp
  from uniform_range [OF oy this] have ry: "- (cc * h) \<le> ny ! k" "ny ! k \<le> ec * h"
    by simp_all
  have "corners noise ! k =
          (nx ! k * fst (corners noise_signs ! k), ny ! k * snd (corners noise_signs ! k))"
    unfolding n box_mul_def
    by (simp add: corners_box_map2 [OF assms(7)] corners_noise_array [OF assms(7)])
  with rx ry show ?thesis by blast
qed

text \<open>
  Claim C1, as amended. For a box with a concrete label, nonnegative coefficients and
  nonnegative width \<open>w\<close> and height \<open>h\<close>: each of the eight drawn values lies between
  \<open>-contract_coeff * dim\<close> and \<open>expand_coeff * dim\<close>, and each corner coordinate of the
  rounded box of line 349, \<open>ceil(box + noise)\<close>, lies outward of the original coordinate by
  less than \<open>expand_coeff * dim + 1\<close> and inward by less than \<open>contract_coeff * dim + 1\<close>.
  Outward is the direction of the sign pattern at that corner. Nothing is said about the
  second addition of the noise in line 350.
\<close>

theorem rounded_corner_bounds:
  assumes "0 \<le> ec" "0 \<le> cc" "get_width_height BB = (w, h)" "0 \<le> w" "0 \<le> h"
    and "draw_noise gen st ec cc BB = (noise, st1)" and "k < 4"
  shows "- (cc * w) \<le> fst (corners noise_signs ! k) * fst (corners noise ! k) \<and>
         fst (corners noise_signs ! k) * fst (corners noise ! k) \<le> ec * w \<and>
         - (cc * h) \<le> snd (corners noise_signs ! k) * snd (corners noise ! k) \<and>
         snd (corners noise_signs ! k) * snd (corners noise ! k) \<le> ec * h \<and>
         - (cc * w) - 1 < fst (corners noise_signs ! k) *
             (fst (corners (ceil_perturbed BB noise) ! k) - fst (corners BB ! k)) \<and>
         fst (corners noise_signs ! k) *
             (fst (corners (ceil_perturbed BB noise) ! k) - fst (corners BB ! k)) < ec * w + 1 \<and>
         - (cc * h) - 1 < snd (corners noise_signs ! k) *
             (snd (corners (ceil_perturbed BB noise) ! k) - snd (corners BB ! k)) \<and>
         snd (corners noise_signs ! k) *
             (snd (corners (ceil_perturbed BB noise) ! k) - snd (corners BB ! k)) < ec * h + 1"
proof -
  define sx where "sx = fst (corners noise_signs ! k)"
  define sy where "sy = snd (corners noise_signs ! k)"
  define cx where "cx = fst (corners BB ! k)"
  define cy where "cy = snd (corners BB ! k)"
  from draw_noise_corner [OF assms] obtain vx vy where
    rx: "- (cc * w) \<le> vx" "vx \<le> ec * w" and ry: "- (cc * h) \<le> vy" "vy \<le> ec * h" and
    nk: "corners noise ! k = (vx * sx, vy * sy)"
    unfolding sx_def sy_def by blast
  from noise_signs_unit [OF assms(7)] have ux: "sx = 1 \<or> sx = - 1" and uy: "sy = 1 \<or> sy = - 1"
    unfolding sx_def sy_def by simp_all
  have ck: "corners (ceil_perturbed BB noise) ! k =
              (of_int \<lceil>cx + vx * sx\<rceil>, of_int \<lceil>cy + vy * sy\<rceil>)"
    unfolding ceil_perturbed_def box_ceil_def box_add_def cx_def cy_def
    by (simp add: corners_box_map [OF assms(7)] corners_box_map2 [OF assms(7)] nk)
  have sqx: "sx * (vx * sx) = vx" using ux by auto
  have sqy: "sy * (vy * sy) = vy" using uy by auto
  from ceil_outward [OF rx ux, of cx] ceil_outward [OF ry uy, of cy] rx ry
  show ?thesis
    unfolding sx_def [symmetric] sy_def [symmetric] cx_def [symmetric] cy_def [symmetric] ck nk
    by (simp add: sqx sqy)
qed


lemma gwh_big_box: "get_width_height big_box = (10, 10)"
  by (simp add: get_width_height_def big_box_def top_left_def bottom_right_def pt_sub_def)

lemma gwh_small_box: "get_width_height small_box = (2, 2)"
  by (simp add: get_width_height_def small_box_def top_left_def bottom_right_def pt_sub_def)

lemma sample_seven_eighths: "random_sample seven_eighths_gen s = (7 / 8, s + 1)"
  by (simp add: random_sample_def seven_eighths_gen_def)

lemma sample_eighth: "random_sample eighth_gen s = (1 / 8, s + 1)"
  by (simp add: random_sample_def eighth_gen_def)

lemma uniform_seven_eighths:
  "uniform seven_eighths_gen s low high 4 =
     (replicate 4 (low + (high - low) * (7 / 8)), s + 4)"
  by (simp add: eval_nat_numeral sample_seven_eighths)

lemma uniform_eighth:
  "uniform eighth_gen s low high 4 = (replicate 4 (low + (high - low) * (1 / 8)), s + 4)"
  by (simp add: eval_nat_numeral sample_eighth)

lemma draw_noise_big:
  "draw_noise seven_eighths_gen 0 (1 / 5) (1 / 5) big_box =
     (Box (- (3 / 2), - (3 / 2)) (3 / 2, - (3 / 2)) (3 / 2, 3 / 2) (- (3 / 2), 3 / 2), 8)"
  by (simp add: draw_noise_def gwh_big_box uniform_seven_eighths noise_array_def
      box_mul_def box_map2_def noise_signs_def)

lemma draw_noise_small:
  "draw_noise eighth_gen 0 (1 / 5) (1 / 5) small_box =
     (Box (3 / 10, 3 / 10) (- (3 / 10), 3 / 10) (- (3 / 10), - (3 / 10)) (3 / 10, - (3 / 10)), 8)"
  by (simp add: draw_noise_def gwh_small_box uniform_eighth noise_array_def
      box_mul_def box_map2_def noise_signs_def)

lemma new_charBB_big:
  "new_charBB (100, 100) big_box
      (Box (- (3 / 2), - (3 / 2)) (3 / 2, - (3 / 2)) (3 / 2, 3 / 2) (- (3 / 2), 3 / 2)) =
     Box (15 / 2, 15 / 2) (47 / 2, 15 / 2) (47 / 2, 47 / 2) (15 / 2, 47 / 2)"
  by (simp add: new_charBB_def unclipped_def ceil_perturbed_def box_clip_def box_ceil_def
      box_add_def box_map_def box_map2_def big_box_def clip_def)

lemma new_charBB_small:
  "new_charBB (100, 100) small_box
      (Box (3 / 10, 3 / 10) (- (3 / 10), 3 / 10) (- (3 / 10), - (3 / 10)) (3 / 10, - (3 / 10))) =
     Box (113 / 10, 113 / 10) (117 / 10, 113 / 10) (117 / 10, 117 / 10) (113 / 10, 117 / 10)"
  by (simp add: new_charBB_def unclipped_def ceil_perturbed_def box_clip_def box_ceil_def
      box_add_def box_map_def box_map2_def small_box_def clip_def)

lemma BB_augment_plain:
  "BB_augment gen st charBBs wordBBs gts img_wh False False None f ec cc =
     (case perturb_loop gen img_wh ec cc gts 0 st charBBs of
        Inl (e, c5, st5) \<Rightarrow> Inl (e, c5, gts, st5)
      | Inr (c5, st5) \<Rightarrow> Inr (c5, gts, st5))"
  by (simp add: BB_augment_def py_slice_to_def split: sum.splits prod.splits)

lemma BB_augment_big:
  "BB_augment seven_eighths_gen 0 [big_box] None [PStr ''A''] (100, 100) False False None
      (1 / 10) (1 / 5) (1 / 5) =
     Inr ([Box (15 / 2, 15 / 2) (47 / 2, 15 / 2) (47 / 2, 47 / 2) (15 / 2, 47 / 2)],
          [PStr ''A''], 8)"
  by (simp add: BB_augment_plain perturb_box_def draw_noise_big gwh_big_box new_charBB_big)

lemma BB_augment_small:
  "BB_augment eighth_gen 0 [small_box] None [PStr ''A''] (100, 100) False False None
      (1 / 10) (1 / 5) (1 / 5) =
     Inr ([Box (113 / 10, 113 / 10) (117 / 10, 113 / 10) (117 / 10, 117 / 10) (113 / 10, 117 / 10)],
          [PStr ''A''], 8)"
  by (simp add: BB_augment_plain perturb_box_def draw_noise_small gwh_small_box new_charBB_small)


lemma gwh_perturbed_big: "get_width_height perturbed_big = (16, 16)"
  by (simp add: get_width_height_def perturbed_big_def top_left_def bottom_right_def pt_sub_def)

lemma gwh_perturbed_small: "get_width_height perturbed_small = (2 / 5, 2 / 5)"
  by (simp add: get_width_height_def perturbed_small_def top_left_def bottom_right_def
      pt_sub_def)

lemma unclipped_big: "unclipped big_box noise_big = perturbed_big"
  by (simp add: unclipped_def ceil_perturbed_def box_ceil_def box_add_def box_map_def
      box_map2_def big_box_def noise_big_def perturbed_big_def)

theorem rounded_corner_bounds_witness:
  "(0::real) \<le> 1 / 5 \<and> get_width_height big_box = (10, 10) \<and> (0::real) \<le> 10 \<and>
   draw_noise seven_eighths_gen 0 (1 / 5) (1 / 5) big_box = (noise_big, 8) \<and> (2::nat) < 4 \<and>
   (- (1 / 5 * 10) \<le> fst (corners noise_signs ! 2) * fst (corners noise_big ! 2) \<and>
    fst (corners noise_signs ! 2) * fst (corners noise_big ! 2) \<le> 1 / 5 * 10 \<and>
    - (1 / 5 * 10) \<le> snd (corners noise_signs ! 2) * snd (corners noise_big ! 2) \<and>
    snd (corners noise_signs ! 2) * snd (corners noise_big ! 2) \<le> 1 / 5 * 10 \<and>
    - (1 / 5 * 10) - 1 < fst (corners noise_signs ! 2) *
       (fst (corners (ceil_perturbed big_box noise_big) ! 2) - fst (corners big_box ! 2)) \<and>
    fst (corners noise_signs ! 2) *
       (fst (corners (ceil_perturbed big_box noise_big) ! 2) - fst (corners big_box ! 2))
       < 1 / 5 * 10 + 1 \<and>
    - (1 / 5 * 10) - 1 < snd (corners noise_signs ! 2) *
       (snd (corners (ceil_perturbed big_box noise_big) ! 2) - snd (corners big_box ! 2)) \<and>
    snd (corners noise_signs ! 2) *
       (snd (corners (ceil_perturbed big_box noise_big) ! 2) - snd (corners big_box ! 2))
       < 1 / 5 * 10 + 1)"
proof -
  have h1: "(0::real) \<le> 1 / 5" by simp
  have h4: "(0::real) \<le> 10" by simp
  have h6: "draw_noise seven_eighths_gen 0 (1 / 5) (1 / 5) big_box = (noise_big, 8)"
    by (simp add: draw_noise_big noise_big_def)
  have h7: "(2::nat) < 4" by simp
  note c = rounded_corner_bounds [OF h1 h1 gwh_big_box h4 h4 h6 h7]
  from h1 gwh_big_box h4 h6 h7 c show ?thesis by blast
qed

text \<open>
  The claim C1 as stated fails: with coefficients 0.2 and every draw at 7/8, a 10 x 10 box
  becomes 16 x 16 before clipping, 6 wider where the claim allows 2, and its bottom-right
  corner moves by 3.5 where the drawn value is 1.5.
\<close>

theorem perturbation_exceeds_bound_counterexample:
  "BB_augment seven_eighths_gen 0 [big_box] None [PStr ''A''] (100, 100) False False None
      (1 / 10) (1 / 5) (1 / 5) = Inr ([perturbed_big], [PStr ''A''], 8) \<and>
   unclipped big_box (fst (draw_noise seven_eighths_gen 0 (1 / 5) (1 / 5) big_box))
     = perturbed_big \<and>
   \<not> (fst (get_width_height perturbed_big) - fst (get_width_height big_box)
        \<le> 1 / 5 * fst (get_width_height big_box)) \<and>
   \<not> (\<bar>fst (corners perturbed_big ! 2) - fst (corners big_box ! 2)\<bar>
        \<le> \<bar>fst (corners (fst (draw_noise seven_eighths_gen 0 (1 / 5) (1 / 5) big_box)) ! 2)\<bar>)"
proof -
  have d: "fst (draw_noise seven_eighths_gen 0 (1 / 5) (1 / 5) big_box) = noise_big"
    by (simp add: draw_noise_big noise_big_def)
  have a: "BB_augment seven_eighths_gen 0 [big_box] None [PStr ''A''] (100, 100) False False None
      (1 / 10) (1 / 5) (1 / 5) = Inr ([perturbed_big], [PStr ''A''], 8)"
    by (simp add: BB_augment_big perturbed_big_def)
  have w: "\<not> (fst (get_width_height perturbed_big) - fst (get_width_height big_box)
        \<le> 1 / 5 * fst (get_width_height big_box))"
    by (simp add: gwh_perturbed_big gwh_big_box)
  have c: "\<not> (\<bar>fst (corners perturbed_big ! 2) - fst (corners big_box ! 2)\<bar>
        \<le> \<bar>fst (corners noise_big ! 2)\<bar>)"
    by (simp add: corners_def perturbed_big_def big_box_def noise_big_def)
  from a w c show ?thesis
    unfolding d unclipped_big by blast
qed

text \<open>
  Claim C3 at a failing input. The 2 x 2 box passes \<^verbatim>\<open>filter_BBs\<close>; with every draw at 1/8
  the perturbed box is 0.4 wide and 0.4 high, and \<^verbatim>\<open>BB_augment\<close> stores it all the same,
  because the test of lines 353 and 354 reads width and height of the original box.
\<close>

theorem BB_augment_stores_degenerate_box:
  "filter_BBs [small_box] [PStr ''A''] (100, 100) = Inr ([small_box], [PStr ''A'']) \<and>
   BB_augment eighth_gen 0 [small_box] None [PStr ''A''] (100, 100) False False None
      (1 / 10) (1 / 5) (1 / 5) = Inr ([perturbed_small], [PStr ''A''], 8) \<and>
   perturbed_small \<noteq> small_box \<and>
   get_width_height small_box = (2, 2) \<and>
   get_width_height perturbed_small = (2 / 5, 2 / 5)"
proof -
  have k: "kept (100, 100) small_box"
    by (simp add: kept_def small_box_def get_containing_rect_def min4_def max4_def)
  have f: "filter_BBs [small_box] [PStr ''A''] (100, 100) = Inr ([small_box], [PStr ''A''])"
    using filter_BBs_zip [of "[small_box]" "[PStr ''A'']" "(100, 100)"] k by simp
  have a: "BB_augment eighth_gen 0 [small_box] None [PStr ''A''] (100, 100) False False None
      (1 / 10) (1 / 5) (1 / 5) = Inr ([perturbed_small], [PStr ''A''], 8)"
    by (simp add: BB_augment_small perturbed_small_def)
  have n: "perturbed_small \<noteq> small_box"
    by (simp add: perturbed_small_def small_box_def)
  from f a n gwh_small_box gwh_perturbed_small show ?thesis by blast
qed

lemma perturb_loop_raises:
  "perturb_loop gen img_wh ec cc gts i st BBs = Inl (e, rows, st1) \<Longrightarrow> e = IndexError"
proof (induction BBs arbitrary: i st rows st1)
  case Nil
  then show ?case by simp
next
  case (Cons BB BBs)
  then show ?case
    by (fastforce split: if_splits prod.splits sum.splits)
qed

lemma BB_augment_unchecked:
  assumes "\<not> nonchars"
  shows "BB_augment gen st charBBs wordBBs gts img_wh nonchars shuffle_flag batch_size_limit
           fraction_nonchar expand_coeff contract_coeff =
         BB_augment gen st charBBs wordBBs gts img_wh nonchars shuffle_flag batch_size_limit
           other_fraction expand_coeff contract_coeff"
  using assms by (simp add: BB_augment_def)

lemma BB_augment_raises:
  assumes "\<not> nonchars"
    and "BB_augment gen st charBBs wordBBs gts img_wh nonchars shuffle_flag batch_size_limit
           fraction_nonchar expand_coeff contract_coeff = Inl (e, rows, labels, st1)"
  shows "e = IndexError"
  using assms
  by (auto simp: BB_augment_def Let_def split: option.splits prod.splits sum.splits if_splits
      dest: perturb_loop_raises)

text \<open>
  Claim C5, as amended. When \<^verbatim>\<open>BB_augment\<close> is called with \<open>nonchars\<close> set and
  \<open>fraction_nonchar\<close> at least 1, it fails with the assertion error before any shuffling,
  truncation or perturbation: the exception leaves the caller's boxes and labels in their
  order and the random stream in its state. Without \<open>nonchars\<close> the value of
  \<open>fraction_nonchar\<close> is not checked: the result is the same for any other value, and it
  is never the assertion error.
\<close>

theorem BB_augment_assertion:
  "(nonchars \<and> 1 \<le> fraction_nonchar \<longrightarrow>
      BB_augment gen st charBBs wordBBs gts img_wh nonchars shuffle_flag batch_size_limit
        fraction_nonchar expand_coeff contract_coeff = Inl (AssertionError, charBBs, gts, st)) \<and>
   (\<not> nonchars \<longrightarrow>
      BB_augment gen st charBBs wordBBs gts img_wh nonchars shuffle_flag batch_size_limit
        fraction_nonchar expand_coeff contract_coeff =
      BB_augment gen st charBBs wordBBs gts img_wh nonchars shuffle_flag batch_size_limit
        other_fraction expand_coeff contract_coeff \<and>
      (\<forall>rows labels st1.
         BB_augment gen st charBBs wordBBs gts img_wh nonchars shuffle_flag batch_size_limit
           fraction_nonchar expand_coeff contract_coeff \<noteq>
         Inl (AssertionError, rows, labels, st1)))"
proof (intro conjI impI allI)
  assume "nonchars \<and> 1 \<le> fraction_nonchar"
  then show "BB_augment gen st charBBs wordBBs gts img_wh nonchars shuffle_flag
      batch_size_limit fraction_nonchar expand_coeff contract_coeff =
      Inl (AssertionError, charBBs, gts, st)"
    by (simp add: BB_augment_def split: option.splits prod.splits)
next
  assume "\<not> nonchars"
  then show "BB_augment gen st charBBs wordBBs gts img_wh nonchars shuffle_flag
      batch_size_limit fraction_nonchar expand_coeff contract_coeff =
    BB_augment gen st charBBs wordBBs gts img_wh nonchars shuffle_flag batch_size_limit
      other_fraction expand_coeff contract_coeff"
    by (rule BB_augment_unchecked)
next
  fix rows labels st1
  assume n: "\<not> nonchars"
  show "BB_augment gen st charBBs wordBBs gts img_wh nonchars shuffle_flag
      batch_size_limit fraction_nonchar expand_coeff contract_coeff \<noteq>
      Inl (AssertionError, rows, labels, st1)"
  proof
    assume "BB_augment gen st charBBs wordBBs gts img_wh nonchars shuffle_flag
      batch_size_limit fraction_nonchar expand_coeff contract_coeff =
      Inl (AssertionError, rows, labels, st1)"
    from BB_augment_raises [OF n this] show False by simp
  qed
qed

text \<open>
  The theorem at two calls. With \<open>nonchars\<close> and a fraction of 3/2 the two boxes, the two
  labels and the state 0 come back with the error as they went in, where a shuffle would
  have swapped them and moved the state to 1. Without \<open>nonchars\<close> the fractions 1 and 0
  give the same result, which is not the assertion error.
\<close>

theorem BB_augment_assertion_witness:
  "(1::real) \<le> 3 / 2 \<and>
   BB_augment count_gen 0 [box_a, box_thin] None [PStr ''A'', PStr ''b''] (10, 10) True True
     (Some 64) (3 / 2) (1 / 5) (1 / 5) =
     Inl (AssertionError, [box_a, box_thin], [PStr ''A'', PStr ''b''], 0) \<and>
   shuffle_in_unison count_gen 0 [box_a, box_thin] [PStr ''A'', PStr ''b''] =
     ([box_thin, box_a], [PStr ''b'', PStr ''A''], 1) \<and>
   BB_augment count_gen 0 [box_a] None [PNone] (10, 10) False True None 1 (1 / 5) (1 / 5) =
     BB_augment count_gen 0 [box_a] None [PNone] (10, 10) False True None 0 (1 / 5) (1 / 5) \<and>
   (\<forall>rows labels st1.
      BB_augment count_gen 0 [box_a] None [PNone] (10, 10) False True None 1 (1 / 5) (1 / 5) \<noteq>
      Inl (AssertionError, rows, labels, st1))"
proof -
  have h: "(1::real) \<le> 3 / 2" by simp
  have s: "shuffle_in_unison count_gen 0 [box_a, box_thin] [PStr ''A'', PStr ''b''] =
     ([box_thin, box_a], [PStr ''b'', PStr ''A''], 1)"
    by (simp add: shuffle_in_unison_def shuffle_def count_gen_def random_interval_def)
  from BB_augment_assertion [of True "3 / 2" count_gen 0 "[box_a, box_thin]" None
      "[PStr ''A'', PStr ''b'']" "(10, 10)" True "Some 64" "1 / 5" "1 / 5" 0] h
  have a: "BB_augment count_gen 0 [box_a, box_thin] None [PStr ''A'', PStr ''b''] (10, 10)
     True True (Some 64) (3 / 2) (1 / 5) (1 / 5) =
     Inl (AssertionError, [box_a, box_thin], [PStr ''A'', PStr ''b''], 0)"
    by blast
  from BB_augment_assertion [of False 1 count_gen 0 "[box_a]" None "[PNone]" "(10, 10)" True
      None "1 / 5" "1 / 5" 0]
  have b: "BB_augment count_gen 0 [box_a] None [PNone] (10, 10) False True None 1 (1 / 5)
      (1 / 5) =
     BB_augment count_gen 0 [box_a] None [PNone] (10, 10) False True None 0 (1 / 5) (1 / 5) \<and>
   (\<forall>rows labels st1.
      BB_augment count_gen 0 [box_a] None [PNone] (10, 10) False True None 1 (1 / 5) (1 / 5) \<noteq>
      Inl (AssertionError, rows, labels, st1))"
    by blast
  from h a s b show ?thesis by blast
qed

text \<open>
  The claim C5 as stated fails: without \<open>nonchars\<close> (the default) a call with
  \<open>fraction_nonchar = 1\<close> returns normally.
\<close>

theorem BB_augment_no_assertion_counterexample:
  "BB_augment count_gen 0 [box_a] None [PNone] (10, 10) False True None 1 (1 / 5) (1 / 5) =
     Inr ([box_a], [PNone], 0)"
  by (simp add: BB_augment_def py_slice_to_def shuffle_in_unison_def shuffle_def)

section \<open>Pixel range of the batch\<close>

lemma fill_batch_values:
  assumes "fill_batch crop i charBBs batch = Inr out"
    and "\<forall>row\<in>set batch. \<forall>x\<in>set row. P x"
    and "\<forall>b\<in>set charBBs. \<forall>x\<in>set (crop b). P x"
  shows "\<forall>row\<in>set out. \<forall>x\<in>set row. P x"
  using assms
proof (induction charBBs arbitrary: i batch)
  case Nil
  then show ?case by simp
next
  case (Cons b bs)
  from Cons.prems(1) have lt: "i < length batch"
    and step: "fill_batch crop (i + 1) bs (batch[i := crop b]) = Inr out"
    by (simp_all split: if_splits)
  have "\<forall>row\<in>set (batch[i := crop b]). \<forall>x\<in>set row. P x"
  proof
    fix row assume "row \<in> set (batch[i := crop b])"
    then have "row \<in> insert (crop b) (set batch)"
      using set_update_subset_insert by fastforce
    with Cons.prems(2,3) show "\<forall>x\<in>set row. P x" by auto
  qed
  from Cons.IH [OF step this] Cons.prems(3) show ?case by simp
qed

lemma scale_range:
  fixes x :: real
  assumes "0 \<le> x" "x \<le> 255"
  shows "- 1 \<le> (x / 255 - 1 / 2) * 2 \<and> (x / 255 - 1 / 2) * 2 \<le> 1"
  using assms by simp

lemma SynthCharDataset_batch_range:
  assumes "SynthCharDataset_batch crop row_len charBBs chars = Inr out"
    and "\<forall>b\<in>set charBBs. \<forall>x\<in>set (crop b). 0 \<le> x \<and> x \<le> 255"
  shows "in_unit_range out"
proof -
  from assms(1) obtain batch where
    c: "crop_batch crop row_len charBBs chars = Inr batch" and
    o: "out = map (map (\<lambda>x. (x / 255 - 1 / 2) * 2)) batch"
    by (auto simp: SynthCharDataset_batch_def comp_def split: sum.splits)
  have z: "\<forall>row\<in>set (replicate (length chars) (replicate row_len (0::real))).
             \<forall>x\<in>set row. 0 \<le> x \<and> x \<le> 255"
    by simp
  from fill_batch_values [OF c [unfolded crop_batch_def] z assms(2)]
  have "\<forall>row\<in>set batch. \<forall>x\<in>set row. 0 \<le> x \<and> x \<le> 255" .
  then show ?thesis
    unfolding in_unit_range_def o list_all_iff
    using scale_range by auto
qed

text \<open>
  Claim C2 at a failing input. For one box whose crop holds the pixel values 255, 0 and
  128, the batch of \<^verbatim>\<open>SynthCharDataset.__getitem__\<close> is scaled into [-1, 1], and the batch of
  \<^verbatim>\<open>ICDAR2013CharDataset.__getitem__\<close> still holds 255, 0 and 128.
\<close>

theorem ICDAR_batch_not_scaled:
  "SynthCharDataset_batch crop_wbg 3 [box_a] [PStr ''A''] = Inr [[1, - 1, 1 / 255]] \<and>
   in_unit_range [[1, - 1, 1 / 255]] \<and>
   ICDAR2013CharDataset_batch crop_wbg 3 [box_a] [PStr ''A''] = Inr [[255, 0, 128]] \<and>
   \<not> in_unit_range [[255, 0, 128]]"
  by (simp add: SynthCharDataset_batch_def ICDAR2013CharDataset_batch_def crop_batch_def
      crop_wbg_def in_unit_range_def)

section \<open>Properties of \<^verbatim>\<open>string_to_onehot\<close>\<close>

lemma update_new_key:
  "k \<notin> fst ` set al \<Longrightarrow> AList.update k v al = al @ [(k, v)]"
  by (induction al) auto

lemma dict_of_snoc:
  "dict_of (ps @ [p]) = AList.update (fst p) (snd p) (dict_of ps)"
  by (simp add: dict_of_def)

lemma dict_of_enumerate:
  "distinct items \<Longrightarrow> dict_of (zip items [0..<length items]) = zip items [0..<length items]"
proof (induction items rule: rev_induct)
  case Nil
  then show ?case by (simp add: dict_of_def)
next
  case (snoc x xs)
  have z: "zip (xs @ [x]) [0..<length (xs @ [x])] = zip xs [0..<length xs] @ [(x, length xs)]"
    by simp
  from snoc.prems have d: "distinct xs" and nx: "x \<notin> set xs" by simp_all
  have "x \<notin> fst ` set (zip xs [0..<length xs])"
    using nx by (auto dest: set_zip_leftD)
  then show ?case
    unfolding z dict_of_snoc snoc.IH [OF d] by (simp add: update_new_key)
qed

lemma map_of_enumerate_from:
  "map_of (zip items [k..<k + length items]) x =
     (if x \<in> set items then Some (k + position items x) else None)"
proof (induction items arbitrary: k)
  case Nil
  then show ?case by simp
next
  case (Cons y ys)
  have u: "[k..<k + length (y # ys)] = k # [Suc k..<Suc k + length ys]"
    by (subst upt_rec) simp
  show ?case
    unfolding u using Cons.IH [of "Suc k"] by simp
qed

lemma map_of_enumerate:
  "map_of (zip items [0..<length items]) x =
     (if x \<in> set items then Some (position items x) else None)"
  using map_of_enumerate_from [of items 0 x] by simp

lemma position_absent: "x \<notin> set items \<Longrightarrow> position items x = length items"
  by (induction items) auto

lemma build_value:
  assumes "distinct (alphabet_items (effective_alphabet alphabet))"
  shows "build_char_to_int alphabet None True =
     (effective_alphabet alphabet,
      (let items = alphabet_items (effective_alphabet alphabet)
       in if PNone \<in> set items then zip items [0..<length items]
          else zip items [0..<length items] @ [(PNone, length items)]))"
proof -
  let ?items = "alphabet_items (effective_alphabet alphabet)"
  let ?d0 = "zip ?items [0..<length ?items]"
  have d0: "dict_of ?d0 = ?d0"
    by (rule dict_of_enumerate [OF assms])
  have m: "map_of ?d0 PNone = None \<longleftrightarrow> PNone \<notin> set ?items"
    by (simp add: map_of_enumerate)
  have u: "PNone \<notin> set ?items \<Longrightarrow>
             AList.update PNone (length ?d0) ?d0 = ?d0 @ [(PNone, length ?items)]"
    by (subst update_new_key) (auto dest: set_zip_leftD)
  show ?thesis
    unfolding build_char_to_int_def Let_def d0 m using u by simp
qed

lemma build_lookup:
  assumes "distinct (alphabet_items (effective_alphabet alphabet))"
    and "build_char_to_int alphabet None True = (alphabet1, d)"
  shows "map_of d x =
           (if x \<in> set (alphabet_items (effective_alphabet alphabet))
            then Some (position (alphabet_items (effective_alphabet alphabet)) x)
            else if x = PNone then Some (length (alphabet_items (effective_alphabet alphabet)))
            else None)"
proof -
  let ?items = "alphabet_items (effective_alphabet alphabet)"
  from assms(2) have d: "d = (if PNone \<in> set ?items then zip ?items [0..<length ?items]
          else zip ?items [0..<length ?items] @ [(PNone, length ?items)])"
    unfolding build_value [OF assms(1)] Let_def by (auto split: if_splits)
  show ?thesis
    unfolding d by (auto simp: map_of_enumerate map_add_def split: option.splits)
qed


lemma is_substring_single: "is_substring [ch] s = (ch \<in> set s)"
proof (induction s)
  case Nil
  then show ?case by simp
next
  case (Cons y ys)
  have "starts_with [ch] (y # ys) = (ch = y)" by simp
  with Cons.IH show ?case by auto
qed

lemma effective_alphabet_cases:
  "(\<exists>s. effective_alphabet alphabet = AlphaStr s) \<or> (\<exists>l. effective_alphabet alphabet = AlphaList l)"
  by (cases alphabet) (simp_all add: effective_alphabet_def)

lemma str_in_effective:
  assumes "length c = 1"
  shows "str_in_alphabet c (effective_alphabet alphabet) =
           Inr (PStr c \<in> set (alphabet_items (effective_alphabet alphabet)))"
proof -
  from assms obtain ch where c: "c = [ch]"
    by (cases c) auto
  from effective_alphabet_cases [of alphabet] show ?thesis
  proof (elim disjE exE)
    fix s assume "effective_alphabet alphabet = AlphaStr s"
    then show ?thesis
      by (auto simp: c is_substring_single)
  next
    fix l assume "effective_alphabet alphabet = AlphaList l"
    then show ?thesis by simp
  qed
qed

lemma encode_char_spec:
  assumes "distinct (alphabet_items (effective_alphabet alphabet))"
    and "build_char_to_int alphabet None True = (alphabet1, d)"
    and "char_or_nonstring char"
  shows "encode_char alphabet1 d char =
           Inr (spec_index (alphabet_items (effective_alphabet alphabet)) char)"
proof -
  let ?items = "alphabet_items (effective_alphabet alphabet)"
  note look = build_lookup [OF assms(1,2)]
  from assms(2) have a1: "alphabet1 = effective_alphabet alphabet"
    unfolding build_value [OF assms(1)] by simp
  have sentinel: "dict_get d PNone = Inr (sentinel_index ?items)"
    by (simp add: dict_get_def look sentinel_index_def)
  have present: "x \<in> set ?items \<Longrightarrow> dict_get d x = Inr (position ?items x)" for x
    by (simp add: dict_get_def look)
  show ?thesis
  proof (cases char)
    case (PStr c)
    with assms(3) have l: "length c = 1" by simp
    then have ls: "length (swapcase c) = 1" by (simp add: swapcase_def)
    show ?thesis
      unfolding PStr encode_char_def a1
      by (simp add: str_in_effective [OF l] str_in_effective [OF ls] sentinel present Let_def)
  next
    case PNone
    then show ?thesis by (simp add: encode_char_def sentinel)
  next
    case (PNum n)
    then show ?thesis by (simp add: encode_char_def sentinel)
  qed
qed

lemma encode_loop_spec:
  assumes "distinct (alphabet_items (effective_alphabet alphabet))"
    and "build_char_to_int alphabet None True = (alphabet1, d)"
    and "\<forall>l\<in>set string. char_or_nonstring l"
  shows "encode_loop alphabet1 d string =
           Inr (map (spec_index (alphabet_items (effective_alphabet alphabet))) string)"
  using assms(3)
proof (induction string)
  case Nil
  then show ?case by simp
next
  case (Cons x xs)
  then show ?case
    by (simp add: encode_char_spec [OF assms(1,2)])
qed

text \<open>
  Claim C8. With the mapping built from the alphabet (no \<open>char_to_int\<close> supplied,
  \<open>include_nonchar\<close> set, as in every call of the module) and an alphabet without repeated
  entries, \<^verbatim>\<open>string_to_onehot\<close> maps each label as the specification says: a value that is
  no string to the sentinel index, a character of the alphabet to its position, a
  character whose case-swapped form is in the alphabet to that form's position, any other
  character to the sentinel index, which is the position of \<^verbatim>\<open>None\<close> in the alphabet, or
  one past the last position when \<^verbatim>\<open>None\<close> is not in it.
\<close>

theorem string_to_onehot_index:
  assumes "distinct (alphabet_items (effective_alphabet alphabet))"
    and "\<forall>l\<in>set string. char_or_nonstring l"
  shows "string_to_onehot string alphabet None True False =
           Inr (Indices (map (spec_index (alphabet_items (effective_alphabet alphabet))) string))"
proof -
  obtain alphabet1 d where b: "build_char_to_int alphabet None True = (alphabet1, d)"
    by (cases "build_char_to_int alphabet None True")
  show ?thesis
    unfolding string_to_onehot_def b
    by (simp add: encode_loop_spec [OF assms(1) b assms(2)])
qed

lemma ALPHABET_items:
  "alphabet_items (effective_alphabet ALPHABET) =
     map (\<lambda>c. PStr [c]) default_alphabet @ [PNone]"
  by (simp add: ALPHABET_def effective_alphabet_def)

lemma ALPHABET_distinct: "distinct (alphabet_items (effective_alphabet ALPHABET))"
  unfolding ALPHABET_items by (simp add: default_alphabet_def)

lemma ALPHABET_example:
  "map (spec_index (alphabet_items (effective_alphabet ALPHABET)))
     [PStr ''A'', PStr ''c'', PStr ''z'', PStr ''1'', PNone, PNum 3] = [0, 4, 40, 41, 41, 41]"
  unfolding ALPHABET_items by code_simp

theorem string_to_onehot_index_witness:
  "distinct (alphabet_items (effective_alphabet ALPHABET)) \<and>
   list_all char_or_nonstring [PStr ''A'', PStr ''c'', PStr ''z'', PStr ''1'', PNone, PNum 3] \<and>
   string_to_onehot [PStr ''A'', PStr ''c'', PStr ''z'', PStr ''1'', PNone, PNum 3]
      ALPHABET None True False = Inr (Indices [0, 4, 40, 41, 41, 41])"
proof -
  have l: "list_all char_or_nonstring
             [PStr ''A'', PStr ''c'', PStr ''z'', PStr ''1'', PNone, PNum 3]"
    by simp
  then have h: "\<forall>l\<in>set [PStr ''A'', PStr ''c'', PStr ''z'', PStr ''1'', PNone, PNum 3].
      char_or_nonstring l"
    unfolding list_all_iff .
  from string_to_onehot_index [OF ALPHABET_distinct h] ALPHABET_distinct l
  show ?thesis
    unfolding ALPHABET_example by blast
qed

section \<open>Properties of \<^verbatim>\<open>genBalancedCharDataset\<close>\<close>

lemma bounded_saturate: "bounded N_max d \<Longrightarrow> bounded N_max (saturate N_max e d)"
  by (auto simp: bounded_def saturate_def)

lemma dom_saturate: "dom (saturate N_max e d) = dom d"
  by (auto simp: saturate_def dom_def)

lemma saturate_saturate:
  "saturate N_max e2 (saturate N_max e1 d) = saturate N_max (\<lambda>c. e1 c + e2 c) d"
proof
  fix c
  show "saturate N_max e2 (saturate N_max e1 d) c = saturate N_max (\<lambda>c. e1 c + e2 c) d c"
    by (cases "d c") (auto simp: saturate_def min_def)
qed

lemma extractable_hit:
  "fst p = c \<Longrightarrow> \<not> (sk \<and> snd p) \<Longrightarrow>
     extractable sk c (p # occs) = Suc (extractable sk c occs)"
  by (simp add: extractable_def)

lemma extractable_miss:
  "\<not> (fst p = c \<and> \<not> (sk \<and> snd p)) \<Longrightarrow>
     extractable sk c (p # occs) = extractable sk c occs"
  by (simp add: extractable_def)

lemma saturate_miss:
  assumes "\<And>c. d c \<noteq> None \<Longrightarrow> fst p = c \<Longrightarrow> \<not> (sk \<and> snd p) \<Longrightarrow> d c = Some N_max"
  shows "saturate N_max (\<lambda>c. extractable sk c (p # occs)) d =
         saturate N_max (\<lambda>c. extractable sk c occs) d"
proof
  fix c
  show "saturate N_max (\<lambda>c. extractable sk c (p # occs)) d c =
        saturate N_max (\<lambda>c. extractable sk c occs) d c"
  proof (cases "fst p = c \<and> \<not> (sk \<and> snd p)")
    case False
    then show ?thesis
      by (simp add: saturate_def extractable_miss)
  next
    case True
    show ?thesis
    proof (cases "d c")
      case None
      then show ?thesis by (simp add: saturate_def)
    next
      case (Some n)
      with assms [of c] True have "n = N_max" by simp
      with Some show ?thesis by (simp add: saturate_def)
    qed
  qed
qed

lemma char_loop_saturate:
  assumes "bounded N_max d"
  shows "char_loop sk N_max True d occs = Inr (saturate N_max (\<lambda>c. extractable sk c occs) d)"
  using assms
proof (induction occs arbitrary: d)
  case Nil
  have "saturate N_max (\<lambda>c. extractable sk c []) d = d"
  proof
    fix c
    from Nil show "saturate N_max (\<lambda>c. extractable sk c []) d c = d c"
      by (cases "d c") (auto simp: saturate_def extractable_def bounded_def)
  qed
  then show ?case by simp
next
  case (Cons p occs)
  obtain ch is_file where p: "p = (ch, is_file)" by (cases p)
  show ?case
  proof (cases "d ch")
    case None
    have "saturate N_max (\<lambda>c. extractable sk c (p # occs)) d =
          saturate N_max (\<lambda>c. extractable sk c occs) d"
      by (rule saturate_miss) (use None p in auto)
    with None Cons.IH [OF Cons.prems] show ?thesis by (simp add: p)
  next
    case (Some n)
    from Cons.prems Some have le: "n \<le> N_max" by (auto simp: bounded_def)
    show ?thesis
    proof (cases "n \<ge> N_max \<or> (sk \<and> is_file)")
      case True
      have "saturate N_max (\<lambda>c. extractable sk c (p # occs)) d =
            saturate N_max (\<lambda>c. extractable sk c occs) d"
        by (rule saturate_miss) (use True Some le p in auto)
      with True Some Cons.IH [OF Cons.prems] show ?thesis by (auto simp: p)
    next
      case False
      then have lt: "n < N_max" and ex: "\<not> (sk \<and> is_file)" by auto
      have b: "bounded N_max (d(ch \<mapsto> n + 1))"
        using Cons.prems lt by (auto simp: bounded_def)
      have step: "char_loop sk N_max True d (p # occs) =
                  char_loop sk N_max True (d(ch \<mapsto> n + 1)) occs"
        using lt ex Some by (auto simp: p)
      have "saturate N_max (\<lambda>c. extractable sk c occs) (d(ch \<mapsto> n + 1)) =
            saturate N_max (\<lambda>c. extractable sk c (p # occs)) d"
      proof
        fix c
        show "saturate N_max (\<lambda>c. extractable sk c occs) (d(ch \<mapsto> n + 1)) c =
              saturate N_max (\<lambda>c. extractable sk c (p # occs)) d c"
        proof (cases "c = ch")
          case True
          have "extractable sk ch (p # occs) = Suc (extractable sk ch occs)"
            by (rule extractable_hit) (use ex p in auto)
          with True Some show ?thesis
            by (simp add: saturate_def add.commute add.left_commute)
        next
          case False
          have "extractable sk c (p # occs) = extractable sk c occs"
            by (rule extractable_miss) (use False p in auto)
          with False show ?thesis by (simp add: saturate_def)
        qed
      qed
      then show ?thesis
        unfolding step Cons.IH [OF b] by (rule arg_cong)
    qed
  qed
qed


lemma saturate_full:
  assumes "\<And>c n. d c = Some n \<Longrightarrow> n = N_max"
  shows "saturate N_max e d = d"
proof
  fix c
  show "saturate N_max e d c = d c"
  proof (cases "d c")
    case None
    then show ?thesis by (simp add: saturate_def)
  next
    case (Some n)
    with assms [of c n] show ?thesis by (simp add: saturate_def)
  qed
qed

lemma saturate_zero:
  assumes "bounded N_max d"
  shows "saturate N_max (\<lambda>c. 0) d = d"
proof
  fix c
  from assms show "saturate N_max (\<lambda>c. 0) d c = d c"
    by (cases "d c") (auto simp: saturate_def bounded_def)
qed

lemma all_full_iff:
  "all_full classes d N_max \<longleftrightarrow> (\<forall>c\<in>set classes. \<forall>n. d c = Some n \<longrightarrow> N_max \<le> n)"
  by (auto simp: all_full_def list_all_iff split: option.splits)

lemma image_loop_saturate:
  assumes "bounded N_max d" "dom d = set classes" "\<forall>img\<in>set imgs. fst img"
  shows "image_loop sk N_max classes d imgs =
           Inr (saturate N_max (\<lambda>c. extractable_total sk c imgs) d)"
  using assms
proof (induction imgs arbitrary: d)
  case Nil
  then show ?case by (simp add: extractable_total_def saturate_zero)
next
  case (Cons img rest)
  show ?case
  proof (cases "all_full classes d N_max")
    case True
    have "n = N_max" if "d c = Some n" for c n
    proof -
      from that Cons.prems(2) have "c \<in> set classes" by auto
      with True that have "N_max \<le> n" by (auto simp: all_full_iff)
      moreover from Cons.prems(1) that have "n \<le> N_max" by (auto simp: bounded_def)
      ultimately show ?thesis by simp
    qed
    then have "saturate N_max (\<lambda>c. extractable_total sk c (img # rest)) d = d"
      by (rule saturate_full)
    with True show ?thesis by simp
  next
    case False
    let ?d1 = "saturate N_max (\<lambda>c. extractable sk c (snd img)) d"
    from Cons.prems(3) have ok: "fst img" and oks: "\<forall>i\<in>set rest. fst i" by simp_all
    have c1: "char_loop sk N_max (fst img) d (snd img) = Inr ?d1"
      using char_loop_saturate [OF Cons.prems(1)] ok by simp
    have b1: "bounded N_max ?d1"
      by (rule bounded_saturate [OF Cons.prems(1)])
    have dm: "dom ?d1 = set classes"
      using Cons.prems(2) by (simp add: dom_saturate)
    have "saturate N_max (\<lambda>c. extractable_total sk c rest) ?d1 =
          saturate N_max (\<lambda>c. extractable_total sk c (img # rest)) d"
      by (simp add: saturate_saturate extractable_total_def)
    with False c1 Cons.IH [OF b1 dm oks] show ?thesis by simp
  qed
qed

lemma extractable_total_mset:
  assumes "mset xs = mset ys"
  shows "extractable_total sk c xs = extractable_total sk c ys"
proof -
  have "extractable_total sk c zs =
          sum_mset (image_mset (\<lambda>img. extractable sk c (snd img)) (mset zs))" for zs
    unfolding extractable_total_def by (simp add: sum_mset_sum_list [symmetric])
  with assms show ?thesis by simp
qed

lemma visit_mset:
  assumes "mset order = mset [0..<length f]"
  shows "mset (map (\<lambda>i. f ! i) order) = mset f"
proof -
  have "mset (map (\<lambda>i. f ! i) order) = image_mset (\<lambda>i. f ! i) (mset order)"
    by simp
  also have "\<dots> = mset (map (\<lambda>i. f ! i) [0..<length f])"
    unfolding assms by simp
  also have "\<dots> = mset f"
    by (simp add: map_nth)
  finally show ?thesis .
qed

lemma map_of_zero:
  "map_of (map (\<lambda>c. (c, 0::int)) cs) c = (if c \<in> set cs then Some 0 else None)"
  by (induction cs) auto

text \<open>
  The loops of \<^verbatim>\<open>genBalancedCharDataset\<close> run over finite lists, so the model is a total
  function and returns for every corpus. As long as every image can be read, the run is
  balanced: for a target of at least 0, a visit of every image once in any order and at
  least \<open>N_max\<close> extractable occurrences of every tracked class in the corpus, it returns
  normally and the final distribution maps exactly the tracked classes, each to \<open>N_max\<close>.
\<close>

lemma genBalancedCharDataset_balanced:
  assumes "0 \<le> N_max"
    and "mset order = mset [0..<length f]"
    and "\<forall>img\<in>set f. fst img"
    and "\<forall>c\<in>set (tracked_classes classes).
           N_max \<le> int (extractable_total skip_existing c f)"
  shows "\<exists>d. genBalancedCharDataset N_max f order skip_existing classes = Inr d \<and>
           dom d = set (tracked_classes classes) \<and>
           (\<forall>c\<in>set (tracked_classes classes). d c = Some N_max)"
proof -
  let ?cs = "tracked_classes classes"
  let ?init = "map_of (map (\<lambda>c. (c, 0::int)) ?cs)"
  let ?imgs = "map (\<lambda>i. f ! i) order"
  let ?d = "saturate N_max (\<lambda>c. extractable_total skip_existing c ?imgs) ?init"
  have b: "bounded N_max ?init"
    using assms(1) by (auto simp: bounded_def map_of_zero split: if_splits)
  have dm: "dom ?init = set ?cs"
    by (auto simp: dom_def map_of_zero)
  have vm: "mset ?imgs = mset f"
    by (rule visit_mset [OF assms(2)])
  then have "set ?imgs = set f"
    by (rule mset_eq_setD)
  with assms(3) have ok: "\<forall>img\<in>set ?imgs. fst img" by simp
  have r: "genBalancedCharDataset N_max f order skip_existing classes = Inr ?d"
    unfolding genBalancedCharDataset_def Let_def
    by (rule image_loop_saturate [OF b dm ok])
  have t: "extractable_total skip_existing c ?imgs = extractable_total skip_existing c f" for c
    by (rule extractable_total_mset [OF vm])
  have "?d c = Some N_max" if "c \<in> set ?cs" for c
    using that assms(4) by (simp add: saturate_def map_of_zero t)
  moreover have "dom ?d = set ?cs"
    by (simp only: dom_saturate dm)
  ultimately show ?thesis using r by blast
qed

lemma corpus3_run:
  "genBalancedCharDataset 2 corpus3 [2, 0, 1] True (Some ''ab'') =
     Inr [CHR ''a'' \<mapsto> 2, CHR ''b'' \<mapsto> 2]"
  by (simp add: genBalancedCharDataset_def tracked_classes_def corpus3_def all_full_def
      fun_upd_twist)

lemma genBalancedCharDataset_balanced_example:
  "(0::int) \<le> 2 \<and> mset [2, 0, 1] = mset [0..<length corpus3] \<and> list_all fst corpus3 \<and>
   list_all (\<lambda>c. 2 \<le> int (extractable_total True c corpus3)) (tracked_classes (Some ''ab'')) \<and>
   (\<exists>d. genBalancedCharDataset 2 corpus3 [2, 0, 1] True (Some ''ab'') = Inr d \<and>
      dom d = set (tracked_classes (Some ''ab'')) \<and>
      (\<forall>c\<in>set (tracked_classes (Some ''ab'')). d c = Some 2))"
proof -
  have h1: "(0::int) \<le> 2" by simp
  have h2: "mset [2, 0, 1] = mset [0..<length corpus3]"
    by (simp add: corpus3_def upt_rec)
  have l3: "list_all fst corpus3"
    by (simp add: corpus3_def)
  have l4: "list_all (\<lambda>c. 2 \<le> int (extractable_total True c corpus3))
              (tracked_classes (Some ''ab''))"
    by (simp add: tracked_classes_def extractable_total_def extractable_def corpus3_def)
  from l3 have h3: "\<forall>img\<in>set corpus3. fst img"
    unfolding list_all_iff .
  from l4 have h4: "\<forall>c\<in>set (tracked_classes (Some ''ab'')).
              2 \<le> int (extractable_total True c corpus3)"
    unfolding list_all_iff .
  from h1 h2 l3 l4 genBalancedCharDataset_balanced [OF h1 h2 h3 h4] show ?thesis
    by blast
qed

text \<open>
  Claim C9 at a failing input. The target is 2 for the one class a, and the readable image
  alone holds 2 extractable occurrences. Visited after the image whose file is missing, it
  is never reached: for the missing file \<^verbatim>\<open>getCroppedImage\<close> prints its warning and returns
  \<^verbatim>\<open>None\<close>, and the call of \<^verbatim>\<open>cv2.imwrite\<close> on it raises, so the run ends with the
  error where the claim has class a at 2. On the readable image alone the run is balanced.
\<close>

theorem genBalancedCharDataset_missing_image:
  "mset [0, 1] = mset [0..<length corpus_missing] \<and>
   extractable_total True (CHR ''a'') [corpus_missing ! 1] = 2 \<and>
   genBalancedCharDataset 2 corpus_missing [0, 1] True (Some ''a'') = Inl CvError \<and>
   genBalancedCharDataset 2 [corpus_missing ! 1] [0] True (Some ''a'') = Inr [CHR ''a'' \<mapsto> 2]"
proof -
  have o: "mset [0, 1] = mset [0..<length corpus_missing]"
    by (simp add: corpus_missing_def upt_rec)
  have e: "extractable_total True (CHR ''a'') [corpus_missing ! 1] = 2"
    by (simp add: extractable_total_def extractable_def corpus_missing_def)
  have r: "genBalancedCharDataset 2 corpus_missing [0, 1] True (Some ''a'') = Inl CvError"
    by (simp add: genBalancedCharDataset_def tracked_classes_def corpus_missing_def
        all_full_def)
  have g: "genBalancedCharDataset 2 [corpus_missing ! 1] [0] True (Some ''a'') =
             Inr [CHR ''a'' \<mapsto> 2]"
    by (simp add: genBalancedCharDataset_def tracked_classes_def corpus_missing_def
        all_full_def)
  from o e r g show ?thesis by blast
qed

end
